theory Spec2Isabelle
  imports Main "HOL-Library.List_Lexorder"
begin

section \<open>Natural sort keys (\<open>natural_key\<close> of \<open>app/renamer.py\<close>)\<close>

text \<open>
  A Python \<open>str\<close> is a sequence of code points. It is modelled as a \<open>string\<close> whose
  characters are read as the code points U+0000 to U+00FF, \<open>ord\<close> giving the code point.
  In that range the regular expression class \<open>\d\<close> matches the ASCII digits only, while
  \<open>str.isdigit\<close> also accepts the superscript digits U+00B2, U+00B3 and U+00B9, and
  \<open>str.lower\<close> maps A-Z and the upper-case Latin-1 letters (U+00C0 to U+00DE, without
  the multiplication sign U+00D7) to the code point 32 above.
\<close>

datatype py_error =
    ValueError | TypeError | FileNotFoundError | NotADirectoryError
  | IsADirectoryError | PermissionError | FileExistsError | OSError

definition ord :: "char \<Rightarrow> nat" where
  "ord c = of_char c"

definition is_decimal :: "char \<Rightarrow> bool" where
  "is_decimal c = (48 \<le> ord c \<and> ord c \<le> 57)"

definition is_digit_char :: "char \<Rightarrow> bool" where
  "is_digit_char c = (is_decimal c \<or> ord c = 178 \<or> ord c = 179 \<or> ord c = 185)"

definition isdigit :: "string \<Rightarrow> bool" where
  "isdigit p = (p \<noteq> [] \<and> list_all is_digit_char p)"

definition lower_char :: "char \<Rightarrow> char" where
  "lower_char c =
     (if (65 \<le> ord c \<and> ord c \<le> 90) \<or> (192 \<le> ord c \<and> ord c \<le> 222 \<and> ord c \<noteq> 215)
      then char_of (ord c + 32) else c)"

definition lower :: "string \<Rightarrow> string" where
  "lower p = map lower_char p"

text \<open>
  \<open>int(p)\<close> is only ever applied to a string on which \<open>isdigit\<close> holds. On such a
  string it raises \<open>ValueError\<close> as soon as one character is not a decimal digit, and
  returns the base-10 value otherwise.
\<close>

definition py_int :: "string \<Rightarrow> py_error + int" where
  "py_int p =
     (if p \<noteq> [] \<and> list_all is_decimal p
      then Inr (foldl (\<lambda>a c. 10 * a + (int (ord c) - 48)) 0 p)
      else Inl ValueError)"

text \<open>
  \<open>_DIGIT_REGEX.split(text)\<close> with the capturing pattern \<open>(\d+)\<close>: the text before the
  first maximal run of decimal digits, the run itself, and the split of what follows it.
\<close>

function re_split :: "string \<Rightarrow> string list" where
  "re_split s =
     (let pre = takeWhile (\<lambda>c. \<not> is_decimal c) s;
          rest = dropWhile (\<lambda>c. \<not> is_decimal c) s
      in if rest = [] then [pre]
         else pre # takeWhile is_decimal rest # re_split (dropWhile is_decimal rest))"
  by pat_completeness auto
termination
proof (relation "measure length")
  show "wf (measure length)" by simp
next
  fix s :: string and pre rest
  assume r: "rest = dropWhile (\<lambda>c. \<not> is_decimal c) s" and ne: "rest \<noteq> []"
  from ne obtain c cs where rc: "rest = c # cs" by (cases rest) auto
  have "is_decimal c"
    using r rc by (metis (mono_tags, lifting) dropWhile_eq_Cons_conv)
  then have "length (dropWhile is_decimal rest) \<le> length cs"
    using rc by (simp add: length_dropWhile_le)
  moreover have "length rest \<le> length s" using r by (simp add: length_dropWhile_le)
  ultimately show "(dropWhile is_decimal rest, s) \<in> measure length" using rc by simp
qed

declare re_split.simps [simp del]

datatype token = TText string | TInt int

definition conv_part :: "string \<Rightarrow> py_error + token" where
  "conv_part p =
     (if isdigit p
      then (case py_int p of Inl e \<Rightarrow> Inl e | Inr i \<Rightarrow> Inr (TInt i))
      else Inr (TText (lower p)))"

text \<open>A list comprehension evaluates its elements from left to right; the first
  exception ends it.\<close>

fun collect :: "(py_error + 'a) list \<Rightarrow> py_error + 'a list" where
  "collect [] = Inr []"
| "collect (Inl e # rs) = Inl e"
| "collect (Inr v # rs) = (case collect rs of Inl e \<Rightarrow> Inl e | Inr vs \<Rightarrow> Inr (v # vs))"

definition natural_key :: "string \<Rightarrow> py_error + token list" where
  "natural_key text = collect (map conv_part (re_split text))"

subsection \<open>Comparison of keys, as Python compares lists\<close>

fun str_lt :: "string \<Rightarrow> string \<Rightarrow> bool" where
  "str_lt [] [] = False"
| "str_lt [] (y # ys) = True"
| "str_lt (x # xs) [] = False"
| "str_lt (x # xs) (y # ys) = (if x = y then str_lt xs ys else ord x < ord y)"

text \<open>\<open><\<close> between an \<open>int\<close> and a \<open>str\<close> raises \<open>TypeError\<close>.\<close>

fun tok_lt :: "token \<Rightarrow> token \<Rightarrow> py_error + bool" where
  "tok_lt (TInt a) (TInt b) = Inr (a < b)"
| "tok_lt (TText a) (TText b) = Inr (str_lt a b)"
| "tok_lt (TInt a) (TText b) = Inl TypeError"
| "tok_lt (TText a) (TInt b) = Inl TypeError"

text \<open>List comparison looks for the first position where the elements differ (by
  \<open>==\<close>, which is defined between any two tokens) and compares there; without such a
  position the shorter list is the smaller.\<close>

fun key_lt :: "token list \<Rightarrow> token list \<Rightarrow> py_error + bool" where
  "key_lt [] [] = Inr False"
| "key_lt [] (y # ys) = Inr True"
| "key_lt (x # xs) [] = Inr False"
| "key_lt (x # xs) (y # ys) = (if x = y then key_lt xs ys else tok_lt x y)"


text \<open>
  \<open>list.sort(key=...)\<close> first computes the key of every element, in order, and an
  exception raised by the key function ends the sort. It then orders the elements by
  \<open><\<close> on their keys and is stable. It is modelled by a stable insertion sort that
  moves an element past those of strictly smaller key; a comparison that raises ends it.
\<close>

fun insert_sorted ::
  "token list \<times> 'a \<Rightarrow> (token list \<times> 'a) list \<Rightarrow> py_error + (token list \<times> 'a) list" where
  "insert_sorted x [] = Inr [x]"
| "insert_sorted x (y # ys) =
     (case key_lt (fst y) (fst x) of
        Inl e \<Rightarrow> Inl e
      | Inr True \<Rightarrow> (case insert_sorted x ys of Inl e \<Rightarrow> Inl e | Inr zs \<Rightarrow> Inr (y # zs))
      | Inr False \<Rightarrow> Inr (x # y # ys))"

fun sort_pairs :: "(token list \<times> 'a) list \<Rightarrow> py_error + (token list \<times> 'a) list" where
  "sort_pairs [] = Inr []"
| "sort_pairs (x # xs) =
     (case sort_pairs xs of Inl e \<Rightarrow> Inl e | Inr ys \<Rightarrow> insert_sorted x ys)"

definition with_key :: "('a \<Rightarrow> py_error + token list) \<Rightarrow> 'a \<Rightarrow> py_error + (token list \<times> 'a)" where
  "with_key keyf x = (case keyf x of Inl e \<Rightarrow> Inl e | Inr k \<Rightarrow> Inr (k, x))"

definition py_sort :: "('a \<Rightarrow> py_error + token list) \<Rightarrow> 'a list \<Rightarrow> py_error + 'a list" where
  "py_sort keyf xs =
     (case collect (map (with_key keyf) xs) of
        Inl e \<Rightarrow> Inl e
      | Inr kxs \<Rightarrow> (case sort_pairs kxs of Inl e \<Rightarrow> Inl e | Inr s \<Rightarrow> Inr (map snd s)))"

section \<open>The filesystem\<close>

text \<open>
  A path is the list of its components below a fixed anchor (the filesystem root, or the
  working directory for a relative path); the anchor \<open>[]\<close> is its own parent and has the
  empty name, as \<open>Path('/')\<close> and \<open>Path('.')\<close> do.

  A node is a file or a directory. A file carries a flag saying that it cannot be renamed
  (it is open in another process, say) and its content. A directory carries what listing
  it does and its entries in the order the operating system reports them:
  \<open>Denied\<close> makes \<open>iterdir\<close> raise \<open>PermissionError\<close>; \<open>Vanished\<close> makes it raise
  \<open>FileNotFoundError\<close>, for a directory that was reported by the listing of its parent
  and is gone when it is listed itself.
\<close>

type_synonym path = "string list"

datatype access = Listable | Denied | Vanished

datatype node = File bool string | Dir access "(string \<times> node) list"

datatype platform = Windows | Posix

definition parent :: "path \<Rightarrow> path" where
  "parent p = butlast p"

definition name :: "path \<Rightarrow> string" where
  "name p = (if p = [] then [] else last p)"

definition with_name :: "path \<Rightarrow> string \<Rightarrow> path" where
  "with_name p n = butlast p @ [n]"

fun lookup :: "node \<Rightarrow> path \<Rightarrow> node option" where
  "lookup n [] = Some n"
| "lookup (File l c) (x # p) = None"
| "lookup (Dir a es) (x # p) = (case map_of es x of None \<Rightarrow> None | Some ch \<Rightarrow> lookup ch p)"

definition exists :: "node \<Rightarrow> path \<Rightarrow> bool" where
  "exists fs p = (lookup fs p \<noteq> None)"

definition is_dir :: "node \<Rightarrow> path \<Rightarrow> bool" where
  "is_dir fs p = (case lookup fs p of Some (Dir a es) \<Rightarrow> True | _ \<Rightarrow> False)"

definition is_file :: "node \<Rightarrow> path \<Rightarrow> bool" where
  "is_file fs p = (case lookup fs p of Some (File l c) \<Rightarrow> True | _ \<Rightarrow> False)"

definition iterdir :: "node \<Rightarrow> path \<Rightarrow> py_error + path list" where
  "iterdir fs p =
     (case lookup fs p of
        None \<Rightarrow> Inl FileNotFoundError
      | Some (File l c) \<Rightarrow> Inl NotADirectoryError
      | Some (Dir Denied es) \<Rightarrow> Inl PermissionError
      | Some (Dir Vanished es) \<Rightarrow> Inl FileNotFoundError
      | Some (Dir Listable es) \<Rightarrow> Inr (map (\<lambda>e. p @ [fst e]) es))"

fun update_dir :: "node \<Rightarrow> path \<Rightarrow> ((string \<times> node) list \<Rightarrow> (string \<times> node) list) \<Rightarrow> node" where
  "update_dir (File l c) p f = File l c"
| "update_dir (Dir a es) [] f = Dir a (f es)"
| "update_dir (Dir a es) (x # p) f =
     Dir a (map (\<lambda>e. if fst e = x then (fst e, update_dir (snd e) p f) else e) es)"

definition remove_entry :: "node \<Rightarrow> path \<Rightarrow> node" where
  "remove_entry fs p = update_dir fs (parent p) (filter (\<lambda>e. fst e \<noteq> name p))"

definition put_entry :: "node \<Rightarrow> path \<Rightarrow> node \<Rightarrow> node" where
  "put_entry fs p nd =
     update_dir fs (parent p) (\<lambda>es. filter (\<lambda>e. fst e \<noteq> name p) es @ [(name p, nd)])"


text \<open>
  \<open>Path.rename\<close> (\<open>os.rename\<close>). The platforms differ where the destination exists:
  Windows always raises \<open>FileExistsError\<close>; POSIX silently replaces a file by a file
  (and an empty directory by a directory) and raises otherwise. The moved entry is listed
  last in the destination directory.
\<close>

definition is_prefix :: "path \<Rightarrow> path \<Rightarrow> bool" where
  "is_prefix p q = (take (length p) q = p)"

definition os_rename :: "platform \<Rightarrow> node \<Rightarrow> path \<Rightarrow> path \<Rightarrow> py_error + node" where
  "os_rename pf fs src dst =
     (case lookup fs src of
        None \<Rightarrow> Inl FileNotFoundError
      | Some nd \<Rightarrow>
          if src = [] \<or> dst = [] then Inl OSError
          else if (case nd of File l c \<Rightarrow> l | Dir a es \<Rightarrow> False) then Inl PermissionError
          else if \<not> is_dir fs (parent dst)
            then (if exists fs (parent dst) then Inl NotADirectoryError else Inl FileNotFoundError)
          else if src = dst then Inr fs
          else if is_prefix src dst then Inl OSError
          else (case lookup fs dst of
                  None \<Rightarrow> Inr (put_entry (remove_entry fs src) dst nd)
                | Some old \<Rightarrow>
                    if pf = Windows then Inl FileExistsError
                    else (case (nd, old) of
                            (File l c, File l' c') \<Rightarrow> Inr (put_entry (remove_entry fs src) dst nd)
                          | (File l c, Dir a' es') \<Rightarrow> Inl IsADirectoryError
                          | (Dir a es, File l' c') \<Rightarrow> Inl NotADirectoryError
                          | (Dir a es, Dir a' es') \<Rightarrow>
                              if es' = [] then Inr (put_entry (remove_entry fs src) dst nd)
                              else Inl OSError)))"

section \<open>The renamer\<close>

text \<open>
  The state of a run: the filesystem, the supply of random identifiers
  (\<open>uuid.uuid4().hex\<close>, the \<open>drawn\<close>-th value of \<open>uuids\<close> being the next), and the
  messages handed to the \<open>log\<close> callback so far. A message is kept as the data it is
  formatted from. The argument \<open>lg\<close> of the functions below says whether a callback
  was given.
\<close>

datatype event =
    ProcessingRoot path int
  | Processing path int
  | Renamed path path
  | Failed path py_error
  | Done int

record world =
  fs :: node
  uuids :: "nat \<Rightarrow> string"
  drawn :: nat
  events :: "event list"

definition emit :: "bool \<Rightarrow> event \<Rightarrow> world \<Rightarrow> world" where
  "emit lg ev w = (if lg then w\<lparr>events := events w @ [ev]\<rparr> else w)"

definition digit_char :: "nat \<Rightarrow> char" where
  "digit_char d = char_of (48 + d)"

function str_nat :: "nat \<Rightarrow> string" where
  "str_nat n = (if n < 10 then [digit_char n] else str_nat (n div 10) @ [digit_char (n mod 10)])"
  by pat_completeness auto
termination
  by (relation "measure id") auto

declare str_nat.simps [simp del]

definition str_int :: "int \<Rightarrow> string" where
  "str_int i = (if i < 0 then CHR ''-'' # str_nat (nat (- i)) else str_nat (nat i))"

definition safe_rename :: "platform \<Rightarrow> path \<Rightarrow> path \<Rightarrow> world \<Rightarrow> (py_error + unit) \<times> world" where
  "safe_rename pf src dst w =
     (if src = dst then (Inr (), w)
      else if exists (fs w) dst then
        (let temp = with_name src (''__renaming__'' @ uuids w (drawn w) @ ''__'' @ name src);
             w1 = w\<lparr>drawn := Suc (drawn w)\<rparr>
         in case os_rename pf (fs w1) src temp of
              Inl e \<Rightarrow> (Inl e, w1)
            | Inr fs1 \<Rightarrow>
                (case os_rename pf fs1 temp dst of
                   Inl e \<Rightarrow> (Inl e, w1\<lparr>fs := fs1\<rparr>)
                 | Inr fs2 \<Rightarrow> (Inr (), w1\<lparr>fs := fs2\<rparr>)))
      else (case os_rename pf (fs w) src dst of
              Inl e \<Rightarrow> (Inl e, w)
            | Inr fs1 \<Rightarrow> (Inr (), w\<lparr>fs := fs1\<rparr>)))"

text \<open>The loop of \<open>_prefix_files_in_dir\<close> over the sorted snapshot \<open>entries\<close>; every
  exception of \<open>_safe_rename\<close> is caught, logged, and the loop goes on.\<close>

fun prefix_loop :: "platform \<Rightarrow> bool \<Rightarrow> int \<Rightarrow> path list \<Rightarrow> int \<Rightarrow> world \<Rightarrow> int \<times> world" where
  "prefix_loop pf lg prefix_index [] changed w = (changed, w)"
| "prefix_loop pf lg prefix_index (file_path # rest) changed w =
     (let new_name = str_int prefix_index @ ''_'' @ name file_path;
          dst = with_name file_path new_name
      in case safe_rename pf file_path dst w of
           (Inr u, w1) \<Rightarrow>
             prefix_loop pf lg prefix_index rest (changed + 1) (emit lg (Renamed file_path dst) w1)
         | (Inl exc, w1) \<Rightarrow>
             prefix_loop pf lg prefix_index rest changed (emit lg (Failed file_path exc) w1))"

definition prefix_files_in_dir ::
  "platform \<Rightarrow> bool \<Rightarrow> path \<Rightarrow> int \<Rightarrow> world \<Rightarrow> (py_error + int) \<times> world" where
  "prefix_files_in_dir pf lg directory prefix_index w =
     (case iterdir (fs w) directory of
        Inl e \<Rightarrow> if e = FileNotFoundError then (Inr 0, w) else (Inl e, w)
      | Inr ps \<Rightarrow>
          (case py_sort (\<lambda>p. natural_key (name p)) (filter (is_file (fs w)) ps) of
             Inl e \<Rightarrow> (Inl e, w)
           | Inr entries \<Rightarrow>
               (case prefix_loop pf lg prefix_index entries 0 w of
                  (changed, w1) \<Rightarrow> (Inr changed, w1))))"

text \<open>\<open>siblings.index(folder)\<close>: the position of the first equal element, or \<open>ValueError\<close>
  (here \<open>None\<close>, the caller catching it at once).\<close>

fun list_index :: "'a list \<Rightarrow> 'a \<Rightarrow> nat option" where
  "list_index [] x = None"
| "list_index (y # ys) x =
     (if y = x then Some 0 else (case list_index ys x of None \<Rightarrow> None | Some i \<Rightarrow> Some (Suc i)))"

definition get_folder_index_among_siblings :: "node \<Rightarrow> path \<Rightarrow> py_error + int" where
  "get_folder_index_among_siblings fs0 folder =
     (if parent folder = folder then Inr 1
      else (case iterdir fs0 (parent folder) of
              Inl e \<Rightarrow> if e = FileNotFoundError then Inr 1 else Inl e
            | Inr ps \<Rightarrow>
                (case py_sort (\<lambda>p. natural_key (name p)) (filter (is_dir fs0) ps) of
                   Inl e \<Rightarrow> Inl e
                 | Inr siblings \<Rightarrow>
                     (case list_index siblings folder of
                        None \<Rightarrow> Inr 1
                      | Some i \<Rightarrow> Inr (int i + 1)))))"

text \<open>
  \<open>_iter_subdirs_natural\<close> is a generator: the code that consumes it runs between its
  steps, and each directory is listed only when the generator reaches it. It is modelled
  together with its consumer: \<open>for_subdirs n fsof body root s\<close> is the loop
  \<open>for sd in _iter_subdirs_natural(root): body(sd)\<close> run from the state \<open>s\<close>, whose
  filesystem is \<open>fsof s\<close>. An exception of the body or of the generator ends the loop.
  The recursion of the generator is bounded by \<open>n\<close> nested calls; \<open>None\<close> says that the
  bound was reached.
\<close>

fun for_subdirs ::
  "nat \<Rightarrow> ('s \<Rightarrow> node) \<Rightarrow> (path \<Rightarrow> 's \<Rightarrow> (py_error + unit) \<times> 's) \<Rightarrow> path \<Rightarrow> 's
     \<Rightarrow> ((py_error + unit) \<times> 's) option"
and for_siblings ::
  "nat \<Rightarrow> ('s \<Rightarrow> node) \<Rightarrow> (path \<Rightarrow> 's \<Rightarrow> (py_error + unit) \<times> 's) \<Rightarrow> path list \<Rightarrow> 's
     \<Rightarrow> ((py_error + unit) \<times> 's) option" where
  "for_subdirs 0 fsof body root s = None"
| "for_subdirs (Suc n) fsof body root s =
     (case iterdir (fsof s) root of
        Inl e \<Rightarrow> if e = FileNotFoundError then Some (Inr (), s) else Some (Inl e, s)
      | Inr ps \<Rightarrow>
          (case py_sort (\<lambda>p. natural_key (name p)) (filter (is_dir (fsof s)) ps) of
             Inl e \<Rightarrow> Some (Inl e, s)
           | Inr subdirs \<Rightarrow> for_siblings n fsof body subdirs s))"
| "for_siblings n fsof body [] s = Some (Inr (), s)"
| "for_siblings n fsof body (sd # sds) s =
     (case body sd s of
        (Inl e, s1) \<Rightarrow> Some (Inl e, s1)
      | (Inr u, s1) \<Rightarrow>
          (case for_subdirs n fsof body sd s1 of
             None \<Rightarrow> None
           | Some (Inl e, s2) \<Rightarrow> Some (Inl e, s2)
           | Some (Inr u, s2) \<Rightarrow> for_siblings n fsof body sds s2))"

text \<open>The depth of nested directories, which bounds the recursion of the generator.\<close>

fun height :: "node \<Rightarrow> nat" where
  "height (File l c) = 0"
| "height (Dir a es) = Suc (foldr (\<lambda>e m. max (height (snd e)) m) es 0)"

text \<open>\<open>list(_iter_subdirs_natural(root))\<close>: the consumer only records what is yielded.\<close>

definition iter_subdirs_natural :: "node \<Rightarrow> path \<Rightarrow> ((py_error + unit) \<times> path list) option" where
  "iter_subdirs_natural fs0 root =
     for_subdirs (height fs0) (\<lambda>s. fs0) (\<lambda>sd acc. (Inr (), acc @ [sd])) root []"

text \<open>The body of the loop of \<open>rename_files_in_tree\<close>, on the pair of \<open>total_changed\<close>
  and the state.\<close>

definition visit ::
  "platform \<Rightarrow> bool \<Rightarrow> (path \<Rightarrow> int \<Rightarrow> event) \<Rightarrow> path \<Rightarrow> int \<times> world \<Rightarrow> (py_error + unit) \<times> (int \<times> world)" where
  "visit pf lg msg current_dir tw =
     (case get_folder_index_among_siblings (fs (snd tw)) current_dir of
        Inl e \<Rightarrow> (Inl e, tw)
      | Inr idx \<Rightarrow>
          (case prefix_files_in_dir pf lg current_dir idx (emit lg (msg current_dir idx) (snd tw)) of
             (Inl e, w1) \<Rightarrow> (Inl e, (fst tw, w1))
           | (Inr n, w1) \<Rightarrow> (Inr (), (fst tw + n, w1))))"

definition rename_files_in_tree ::
  "platform \<Rightarrow> path \<Rightarrow> bool \<Rightarrow> bool \<Rightarrow> world \<Rightarrow> ((py_error + int) \<times> world) option" where
  "rename_files_in_tree pf root include_root_files lg w =
     (if \<not> exists (fs w) root \<or> \<not> is_dir (fs w) root then Some (Inl NotADirectoryError, w)
      else
        (case (if include_root_files then visit pf lg ProcessingRoot root (0, w)
               else (Inr (), (0, w))) of
           (Inl e, tw) \<Rightarrow> Some (Inl e, snd tw)
         | (Inr u, tw) \<Rightarrow>
             (case for_subdirs (height (fs (snd tw))) (\<lambda>s. fs (snd s)) (visit pf lg Processing) root tw of
                None \<Rightarrow> None
              | Some (Inl e, tw1) \<Rightarrow> Some (Inl e, snd tw1)
              | Some (Inr u, tw1) \<Rightarrow> Some (Inr (fst tw1), emit lg (Done (fst tw1)) (snd tw1)))))"


section \<open>Example trees\<close>

text \<open>A directory \<open>d\<close> that holds \<open>a.txt\<close> and a leftover \<open>2_a.txt\<close>.\<close>

definition collision_world :: world where
  "collision_world =
     \<lparr>fs = Dir Listable [(''d'', Dir Listable
              [(''a.txt'', File False ''new''), (''2_a.txt'', File False ''old'')])],
      uuids = (\<lambda>n. ''u''), drawn = 0, events = []\<rparr>"

text \<open>Two sibling directories \<open>a\<close> and \<open>top\<close> under the anchor; \<open>top\<close> holds three
  files, of which \<open>readme.md\<close> cannot be renamed.\<close>

definition sample_world :: world where
  "sample_world =
     \<lparr>fs = Dir Listable
             [(''a'', Dir Listable []),
              (''top'', Dir Listable
                 [(''file.txt'', File False ''f''),
                  (''readme.md'', File True ''r''),
                  (''log10.log'', File False ''l'')])],
      uuids = (\<lambda>n. ''u''), drawn = 0, events = []\<rparr>"

text \<open>The sample after \<open>top\<close> was processed with index 2: the two files that can be
  renamed carry the prefix, the third kept its name.\<close>

definition sample_renamed :: node where
  "sample_renamed =
     Dir Listable
       [(''a'', Dir Listable []),
        (''top'', Dir Listable
           [(''readme.md'', File True ''r''),
            (''2_file.txt'', File False ''f''),
            (''2_log10.log'', File False ''l'')])]"

definition sample_attempts :: "event list" where
  "sample_attempts =
     [Renamed [''top'', ''file.txt''] [''top'', ''2_file.txt''],
      Renamed [''top'', ''log10.log''] [''top'', ''2_log10.log''],
      Failed [''top'', ''readme.md''] PermissionError]"

text \<open>Two sibling directories: the listing of \<open>a\<close> fails, \<open>b\<close> holds one file.\<close>

definition unlistable_world :: "access \<Rightarrow> world" where
  "unlistable_world acc =
     \<lparr>fs = Dir Listable
             [(''a'', Dir acc []),
              (''b'', Dir Listable [(''f.txt'', File False ''f'')])],
      uuids = (\<lambda>n. ''u''), drawn = 0, events = []\<rparr>"





text \<open>One directory \<open>dn\<close> that holds one file \<open>n\<close> of content \<open>c\<close>.\<close>

definition one_file_tree :: "string \<Rightarrow> string \<Rightarrow> string \<Rightarrow> node" where
  "one_file_tree dn n c = Dir Listable [(dn, Dir Listable [(n, File False c)])]"

text \<open>The sample after \<open>top\<close> was processed a second time with index 2.\<close>

definition sample_renamed_twice :: node where
  "sample_renamed_twice =
     Dir Listable
       [(''a'', Dir Listable []),
        (''top'', Dir Listable
           [(''readme.md'', File True ''r''),
            (''2_2_file.txt'', File False ''f''),
            (''2_2_log10.log'', File False ''l'')])]"

text \<open>A state whose tree has the directory \<open>d\<close> with the file \<open>file.txt\<close>.\<close>

definition one_file_world :: world where
  "one_file_world =
     \<lparr>fs = one_file_tree ''d'' ''file.txt'' ''x'', uuids = (\<lambda>n. ''u''), drawn = 0, events = []\<rparr>"

section \<open>Notions used in the statements\<close>






definition has_key :: "string \<Rightarrow> bool" where
  "has_key s = (case natural_key s of Inl e \<Rightarrow> False | Inr k \<Rightarrow> True)"

text \<open>
  A filesystem is well formed when the anchor is a directory and no directory has two
  entries of the same name.
\<close>

fun is_Dir :: "node \<Rightarrow> bool" where
  "is_Dir (Dir a es) = True"
| "is_Dir (File l c) = False"

fun wf_node :: "node \<Rightarrow> bool" where
  "wf_node (File l c) = True"
| "wf_node (Dir a es) = (distinct (map fst es) \<and> (\<forall>e\<in>set es. wf_node (snd e)))"

definition wf_fs :: "node \<Rightarrow> bool" where
  "wf_fs fs0 = (is_Dir fs0 \<and> wf_node fs0)"

text \<open>The directory structure of a filesystem: the tree without its files. It keeps
  the names of the directories, their nesting, their order and what listing them does.\<close>

fun dirs_only :: "node \<Rightarrow> node" where
  "dirs_only (File l c) = File l c"
| "dirs_only (Dir a es) =
     Dir a (map (\<lambda>e. (fst e, dirs_only (snd e))) (filter (\<lambda>e. is_Dir (snd e)) es))"

definition depth_at :: "node \<Rightarrow> path \<Rightarrow> nat" where
  "depth_at fs0 p = (case lookup fs0 p of None \<Rightarrow> 0 | Some nd \<Rightarrow> height nd)"

text \<open>The second filesystem is well formed and has the directory structure of the first.\<close>

definition keeps_dirs :: "node \<Rightarrow> node \<Rightarrow> bool" where
  "keeps_dirs fs1 fs2 = (wf_fs fs2 \<and> dirs_only fs2 = dirs_only fs1)"

text \<open>The exceptions that can leave the traversal of a valid root: a listing that is
  denied, and the two that sorting by natural key can raise.\<close>

definition escapes :: "py_error \<Rightarrow> bool" where
  "escapes e = (e = PermissionError \<or> e = ValueError \<or> e = TypeError)"

definition good_run :: "('s \<Rightarrow> node) \<Rightarrow> 's \<Rightarrow> ((py_error + unit) \<times> 's) option \<Rightarrow> bool" where
  "good_run fsof s res =
     (\<exists>r s'. res = Some (r, s') \<and> keeps_dirs (fsof s) (fsof s') \<and> (\<forall>e. r = Inl e \<longrightarrow> escapes e))"

definition body_ok :: "('s \<Rightarrow> node) \<Rightarrow> (path \<Rightarrow> 's \<Rightarrow> (py_error + unit) \<times> 's) \<Rightarrow> bool" where
  "body_ok fsof body =
     (\<forall>d s r s'. wf_fs (fsof s) \<and> is_dir (fsof s) d \<and> body d s = (r, s') \<longrightarrow>
        keeps_dirs (fsof s) (fsof s') \<and> (\<forall>e. r = Inl e \<longrightarrow> escapes e))"


fun attempt_src :: "event \<Rightarrow> path option" where
  "attempt_src (Renamed src dst) = Some src"
| "attempt_src (Failed src e) = Some src"
| "attempt_src ev = None"


definition new_events :: "world \<Rightarrow> world \<Rightarrow> event list" where
  "new_events w w' = drop (length (events w)) (events w')"



section \<open>Evaluation of the natural key\<close>

lemmas key_eval =
  natural_key_def conv_part_def isdigit_def is_digit_char_def is_decimal_def ord_def
  py_int_def lower_def lower_char_def char_of_def bit_Suc_0_iff re_split.simps

lemmas fs_eval =
  exists_def is_dir_def is_file_def iterdir_def parent_def name_def with_name_def
  is_prefix_def put_entry_def remove_entry_def os_rename_def str_nat.simps str_int_def
  digit_char_def

text \<open>
  C1 (fails on the code). Renaming \<open>d/a.txt\<close> to the existing \<open>d/2_a.txt\<close> goes through
  the temporary name, and the second hop meets the same existing destination. On Windows
  it raises \<open>FileExistsError\<close> and the source is left under the temporary name; on POSIX
  it replaces the destination, whose content \<open>old\<close> is lost.
\<close>

theorem safe_rename_collision_fails:
  "safe_rename Windows [''d'', ''a.txt''] [''d'', ''2_a.txt''] collision_world =
     (Inl FileExistsError,
      collision_world\<lparr>drawn := 1,
        fs := Dir Listable [(''d'', Dir Listable
                [(''2_a.txt'', File False ''old''),
                 (''__renaming__u__a.txt'', File False ''new'')])]\<rparr>)
   \<and> safe_rename Posix [''d'', ''a.txt''] [''d'', ''2_a.txt''] collision_world =
     (Inr (),
      collision_world\<lparr>drawn := 1,
        fs := Dir Listable [(''d'', Dir Listable [(''2_a.txt'', File False ''new'')])]\<rparr>)"
  by (simp add: safe_rename_def collision_world_def fs_eval)

text \<open>
  C9 (fails on the code). The name made of the superscript two, U+00B2, is a single part
  that \<open>isdigit\<close> accepts and \<open>int\<close> rejects: \<open>natural_key\<close> raises \<open>ValueError\<close> and
  returns no list.
\<close>

theorem natural_key_superscript_raises:
  "natural_key [CHR 0xB2] = Inl ValueError"
  by (simp add: key_eval)

text \<open>
  C6 (fails on the code). Sorting the two names \<open>file1\<close> and \<open>file1\<close> followed by U+00B2
  by their natural keys raises \<open>ValueError\<close>: the keys of this pair are not compared.
\<close>

theorem natural_sort_superscript_raises:
  "py_sort natural_key [''file1'', ''file1'' @ [CHR 0xB2]] = Inl ValueError"
  by (simp add: key_eval py_sort_def with_key_def)

section \<open>Keys and sorting\<close>

lemma collect_error: "collect rs = Inl e \<Longrightarrow> Inl e \<in> set rs"
  by (induction rs rule: collect.induct) (auto split: sum.splits)

lemma collect_values: "collect rs = Inr vs \<Longrightarrow> rs = map Inr vs"
  by (induction rs arbitrary: vs rule: collect.induct) (auto split: sum.splits)

lemma collect_map_Inr: "collect (map Inr vs) = Inr vs"
  by (induction vs) auto

lemma conv_part_error: "conv_part p = Inl e \<Longrightarrow> e = ValueError"
  by (auto simp: conv_part_def py_int_def split: if_splits sum.splits)

lemma natural_key_error: "natural_key s = Inl e \<Longrightarrow> e = ValueError"
  unfolding natural_key_def by (auto dest!: collect_error dest: conv_part_error[OF sym])

lemma tok_lt_error: "tok_lt a b = Inl e \<Longrightarrow> e = TypeError"
  by (cases "(a, b)" rule: tok_lt.cases) auto

lemma key_lt_error: "key_lt a b = Inl e \<Longrightarrow> e = TypeError"
  by (induction a b rule: key_lt.induct) (auto split: if_splits dest: tok_lt_error)









lemma collect_Cons_Inr:
  "collect (r # rs) = Inr k \<longleftrightarrow> (\<exists>v vs. r = Inr v \<and> collect rs = Inr vs \<and> k = v # vs)"
  by (cases r) (auto split: sum.splits)





lemma has_key_iff: "has_key s \<longleftrightarrow> (\<exists>k. natural_key s = Inr k)"
  by (cases "natural_key s") (simp_all add: has_key_def)




lemma insert_sorted_set: "insert_sorted x ys = Inr zs \<Longrightarrow> set zs = insert x (set ys)"
proof (induction ys arbitrary: zs)
  case Nil
  then show ?case by auto
next
  case (Cons y ys)
  show ?case
  proof (cases "key_lt (fst y) (fst x)")
    case (Inl e)
    with Cons.prems show ?thesis by simp
  next
    case (Inr b)
    show ?thesis
    proof (cases b)
      case True
      with Inr Cons.prems obtain zs' where z: "insert_sorted x ys = Inr zs'" "zs = y # zs'"
        by (cases "insert_sorted x ys") auto
      from Cons.IH[OF z(1)] z(2) show ?thesis by auto
    next
      case False
      with Inr Cons.prems show ?thesis by auto
    qed
  qed
qed

lemma sort_pairs_set: "sort_pairs xs = Inr ys \<Longrightarrow> set ys = set xs"
proof (induction xs arbitrary: ys)
  case Nil
  then show ?case by simp
next
  case (Cons x xs)
  then obtain ys' where y: "sort_pairs xs = Inr ys'" "insert_sorted x ys' = Inr ys"
    by (cases "sort_pairs xs") auto
  from Cons.IH[OF y(1)] insert_sorted_set[OF y(2)] show ?case by simp
qed

lemma insert_sorted_error: "insert_sorted x ys = Inl e \<Longrightarrow> e = TypeError"
proof (induction ys)
  case Nil
  then show ?case by simp
next
  case (Cons y ys)
  show ?case
  proof (cases "key_lt (fst y) (fst x)")
    case (Inl e')
    with Cons.prems show ?thesis by (simp add: key_lt_error)
  next
    case (Inr b)
    with Cons show ?thesis by (cases b; cases "insert_sorted x ys") auto
  qed
qed

lemma sort_pairs_error: "sort_pairs xs = Inl e \<Longrightarrow> e = TypeError"
proof (induction xs)
  case Nil
  then show ?case by simp
next
  case (Cons x xs)
  then show ?case by (cases "sort_pairs xs") (auto dest: insert_sorted_error)
qed

lemma with_key_values:
  "collect (map (with_key keyf) xs) = Inr kxs \<Longrightarrow> map snd kxs = xs"
proof (induction xs arbitrary: kxs)
  case Nil
  then show ?case by simp
next
  case (Cons x xs)
  then obtain kx kxs' where k: "with_key keyf x = Inr kx" "collect (map (with_key keyf) xs) = Inr kxs'"
      "kxs = kx # kxs'"
    by (auto simp: collect_Cons_Inr)
  from k(1) have "snd kx = x" by (cases "keyf x") (auto simp: with_key_def)
  with Cons.IH[OF k(2)] k(3) show ?case by simp
qed

lemma py_sort_set: "py_sort keyf xs = Inr ys \<Longrightarrow> set ys = set xs"
proof -
  assume a: "py_sort keyf xs = Inr ys"
  then obtain kxs where k: "collect (map (with_key keyf) xs) = Inr kxs"
    unfolding py_sort_def by (cases "collect (map (with_key keyf) xs)") auto
  with a obtain s where s: "sort_pairs kxs = Inr s" "ys = map snd s"
    unfolding py_sort_def by (cases "sort_pairs kxs") auto
  have "set ys = snd ` set kxs" using s sort_pairs_set[OF s(1)] by simp
  also have "\<dots> = set (map snd kxs)" by simp
  also have "\<dots> = set xs" using with_key_values[OF k] by simp
  finally show ?thesis .
qed

lemma with_key_error: "with_key keyf x = Inl e \<Longrightarrow> keyf x = Inl e"
  by (cases "keyf x") (auto simp: with_key_def)

lemma py_sort_error:
  assumes "py_sort keyf xs = Inl e"
  shows "(\<exists>x\<in>set xs. keyf x = Inl e) \<or> e = TypeError"
proof (cases "collect (map (with_key keyf) xs)")
  case (Inl e')
  with assms have "e' = e" by (simp add: py_sort_def)
  with Inl have "collect (map (with_key keyf) xs) = Inl e" by simp
  from collect_error[OF this] obtain x where "x \<in> set xs" "with_key keyf x = Inl e" by auto
  then show ?thesis by (blast dest: with_key_error)
next
  case (Inr kxs)
  with assms have "sort_pairs kxs = Inl e"
    by (cases "sort_pairs kxs") (auto simp: py_sort_def)
  then show ?thesis by (simp add: sort_pairs_error)
qed

lemma py_sort_natural_error:
  "py_sort (\<lambda>x. natural_key (f x)) xs = Inl e \<Longrightarrow> e = ValueError \<or> e = TypeError"
  by (drule py_sort_error) (auto dest: natural_key_error)

lemma lookup_append:
  "lookup fs0 (p @ q) = (case lookup fs0 p of None \<Rightarrow> None | Some nd \<Rightarrow> lookup nd q)"
proof (induction fs0 p rule: lookup.induct)
  case (1 n)
  then show ?case by simp
next
  case (2 l c x p)
  then show ?case by simp
next
  case (3 a es x p)
  then show ?case by (cases "map_of es x") simp_all
qed

lemma lookup_snoc:
  "lookup fs0 (p @ [x]) =
     (case lookup fs0 p of
        Some (Dir a es) \<Rightarrow> map_of es x
      | _ \<Rightarrow> None)"
proof (cases "lookup fs0 p")
  case None
  then show ?thesis by (simp add: lookup_append)
next
  case (Some nd)
  then show ?thesis
    by (cases nd) (simp_all add: lookup_append split: option.splits)
qed

lemma is_dir_parent: "is_dir fs0 p \<Longrightarrow> is_dir fs0 (parent p)"
proof (cases p rule: rev_cases)
  case Nil
  then show "is_dir fs0 p \<Longrightarrow> ?thesis" by (simp add: parent_def)
next
  case (snoc q x)
  assume "is_dir fs0 p"
  then show ?thesis using snoc
    by (auto simp: is_dir_def parent_def lookup_snoc split: option.splits node.splits)
qed

lemma is_dir_iff: "is_dir fs0 p \<longleftrightarrow> (\<exists>nd. lookup fs0 p = Some nd \<and> is_Dir nd)"
  by (auto simp: is_dir_def split: option.splits node.splits)

lemma map_of_distinct:
  "distinct (map fst es) \<Longrightarrow> e \<in> set es \<Longrightarrow> map_of es (fst e) = Some (snd e)"
  by (cases e) simp

lemma wf_lookup: "wf_node fs0 \<Longrightarrow> lookup fs0 p = Some nd \<Longrightarrow> wf_node nd"
proof (induction fs0 p arbitrary: nd rule: lookup.induct)
  case (3 a es x p)
  then obtain ch where ch: "map_of es x = Some ch" "lookup ch p = Some nd"
    by (cases "map_of es x") auto
  then have "(x, ch) \<in> set es" by (simp add: map_of_SomeD)
  with "3.prems" have "wf_node ch" by auto
  with "3.IH"[OF ch(1) _ ch(2)] show ?case by simp
qed simp_all

lemma is_Dir_update [simp]: "is_Dir (update_dir nd p f) = is_Dir nd"
  by (cases "(nd, p, f)" rule: update_dir.cases) simp_all

lemma is_Dir_dirs_only [simp]: "is_Dir (dirs_only nd) = is_Dir nd"
  by (cases nd) simp_all

lemma dirs_only_update:
  "wf_node nd \<Longrightarrow>
   (\<And>a es. lookup nd p = Some (Dir a es) \<Longrightarrow> dirs_only (Dir a (f es)) = dirs_only (Dir a es)) \<Longrightarrow>
   dirs_only (update_dir nd p f) = dirs_only nd"
proof (induction nd p f rule: update_dir.induct)
  case (1 l c p f)
  then show ?case by simp
next
  case (2 a es f)
  then show ?case by simp
next
  case (3 a es x p f)
  have d: "distinct (map fst es)" and w: "\<forall>e\<in>set es. wf_node (snd e)"
    using "3.prems"(1) by auto
  have step: "dirs_only (update_dir (snd e) p f) = dirs_only (snd e)"
    if e: "e \<in> set es" "fst e = x" for e
  proof (rule "3.IH"[OF e])
    show "wf_node (snd e)" using w e by simp
    fix a' es' assume l: "lookup (snd e) p = Some (Dir a' es')"
    have "map_of es x = Some (snd e)" using map_of_distinct[OF d e(1)] e(2) by simp
    then have "lookup (Dir a es) (x # p) = Some (Dir a' es')" using l by simp
    then show "dirs_only (Dir a' (f es')) = dirs_only (Dir a' es')" by (rule "3.prems"(2))
  qed
  let ?g = "\<lambda>e. if fst e = x then (fst e, update_dir (snd e) p f) else e"
  have f1: "filter (\<lambda>e. is_Dir (snd e)) (map ?g es) = map ?g (filter (\<lambda>e. is_Dir (snd e)) es)"
    by (induction es) auto
  have "map (\<lambda>e. (fst e, dirs_only (snd e))) (map ?g (filter (\<lambda>e. is_Dir (snd e)) es))
        = map (\<lambda>e. (fst e, dirs_only (snd e))) (filter (\<lambda>e. is_Dir (snd e)) es)"
    using step by (auto simp: comp_def)
  then show ?case by (simp add: f1)
qed

lemma wf_update:
  "wf_node nd \<Longrightarrow>
   (\<And>a es. lookup nd p = Some (Dir a es) \<Longrightarrow> wf_node (Dir a es) \<Longrightarrow> wf_node (Dir a (f es))) \<Longrightarrow>
   wf_node (update_dir nd p f)"
proof (induction nd p f rule: update_dir.induct)
  case (1 l c p f)
  then show ?case by simp
next
  case (2 a es f)
  then show ?case by simp
next
  case (3 a es x p f)
  have d: "distinct (map fst es)" and w: "\<forall>e\<in>set es. wf_node (snd e)"
    using "3.prems"(1) by auto
  have step: "wf_node (update_dir (snd e) p f)"
    if e: "e \<in> set es" "fst e = x" for e
  proof (rule "3.IH"[OF e])
    show "wf_node (snd e)" using w e by simp
    fix a' es' assume l: "lookup (snd e) p = Some (Dir a' es')" and w': "wf_node (Dir a' es')"
    have "map_of es x = Some (snd e)" using map_of_distinct[OF d e(1)] e(2) by simp
    then have "lookup (Dir a es) (x # p) = Some (Dir a' es')" using l by simp
    then show "wf_node (Dir a' (f es'))" using w' by (rule "3.prems"(2))
  qed
  let ?g = "\<lambda>e. if fst e = x then (fst e, update_dir (snd e) p f) else e"
  have mf: "map (fst \<circ> ?g) es = map fst es" by (induction es) auto
  have "\<forall>e\<in>set (map ?g es). wf_node (snd e)" using w step by auto
  then show ?case using d by (simp only: update_dir.simps wf_node.simps map_map mf)
qed

lemma map_of_dirs_part:
  "distinct (map fst es) \<Longrightarrow>
   map_of (map (\<lambda>e. (fst e, g (snd e))) (filter (\<lambda>e. P (snd e)) es)) x =
     (case map_of es x of None \<Rightarrow> None | Some ch \<Rightarrow> if P ch then Some (g ch) else None)"
proof (induction es)
  case Nil
  then show ?case by simp
next
  case (Cons e es)
  obtain n ch where e: "e = (n, ch)" by (cases e)
  show ?case
  proof (cases "n = x")
    case True
    with Cons.prems e have "map_of es x = None"
      by (simp add: map_of_eq_None_iff)
    with Cons e True show ?thesis by simp
  next
    case False
    with Cons e show ?thesis by simp
  qed
qed

lemma lookup_dirs_only:
  "wf_node nd \<Longrightarrow> is_Dir nd \<Longrightarrow>
   lookup (dirs_only nd) p =
     (case lookup nd p of None \<Rightarrow> None
      | Some ch \<Rightarrow> if is_Dir ch then Some (dirs_only ch) else None)"
proof (induction nd p rule: lookup.induct)
  case (1 n)
  then show ?case by simp
next
  case (2 l c x p)
  then show ?case by simp
next
  case (3 a es x p)
  have d: "distinct (map fst es)" using "3.prems" by simp
  show ?case
  proof (cases "map_of es x")
    case None
    then show ?thesis by (simp add: map_of_dirs_part[OF d])
  next
    case (Some ch)
    then have "(x, ch) \<in> set es" by (simp add: map_of_SomeD)
    with "3.prems" have w: "wf_node ch" by auto
    show ?thesis
    proof (cases "is_Dir ch")
      case True
      with "3.IH"[OF Some w True] Some show ?thesis by (simp add: map_of_dirs_part[OF d])
    next
      case False
      then obtain l c where "ch = File l c" by (cases ch) auto
      with Some show ?thesis by (cases p) (simp_all add: map_of_dirs_part[OF d])
    qed
  qed
qed

lemma is_dir_dirs_only: "wf_fs fs0 \<Longrightarrow> is_dir (dirs_only fs0) p = is_dir fs0 p"
  by (auto simp: wf_fs_def is_dir_iff lookup_dirs_only split: option.splits if_splits)

lemma height_entries_dirs_only:
  "\<forall>e\<in>set es. height (dirs_only (snd e)) = height (snd e) \<Longrightarrow>
   foldr (\<lambda>e m. max (height (snd e)) m)
         (map (\<lambda>e. (fst e, dirs_only (snd e))) (filter (\<lambda>e. is_Dir (snd e)) es)) 0
   = foldr (\<lambda>e m. max (height (snd e)) m) es 0"
proof (induction es)
  case Nil
  then show ?case by simp
next
  case (Cons e es)
  show ?case
  proof (cases "is_Dir (snd e)")
    case True
    with Cons show ?thesis by simp
  next
    case False
    then have "height (snd e) = 0" by (cases "snd e") auto
    with False Cons show ?thesis by simp
  qed
qed

lemma height_dirs_only: "height (dirs_only nd) = height nd"
proof (induction nd rule: height.induct)
  case (1 l c)
  then show ?case by simp
next
  case (2 a es)
  then have "\<forall>e\<in>set es. height (dirs_only (snd e)) = height (snd e)" by simp
  from height_entries_dirs_only[OF this] show ?case by simp
qed

lemma depth_at_dirs_only: "wf_fs fs0 \<Longrightarrow> depth_at (dirs_only fs0) p = depth_at fs0 p"
proof -
  assume w: "wf_fs fs0"
  show ?thesis
  proof (cases "lookup fs0 p")
    case None
    with w show ?thesis by (simp add: depth_at_def wf_fs_def lookup_dirs_only)
  next
    case (Some ch)
    with w show ?thesis
      by (cases "is_Dir ch"; cases ch)
         (simp_all add: depth_at_def wf_fs_def lookup_dirs_only height_dirs_only
            del: dirs_only.simps)
  qed
qed

lemma same_dirs_is_dir:
  "wf_fs fs1 \<Longrightarrow> wf_fs fs2 \<Longrightarrow> dirs_only fs1 = dirs_only fs2 \<Longrightarrow> is_dir fs1 p = is_dir fs2 p"
  by (metis is_dir_dirs_only)

lemma same_dirs_depth:
  "wf_fs fs1 \<Longrightarrow> wf_fs fs2 \<Longrightarrow> dirs_only fs1 = dirs_only fs2 \<Longrightarrow> depth_at fs1 p = depth_at fs2 p"
  by (metis depth_at_dirs_only)

lemma height_entry_le:
  "e \<in> set es \<Longrightarrow> height (snd e) \<le> foldr (\<lambda>e m. max (height (snd e)) m) es 0"
  by (induction es) auto

lemma depth_child:
  assumes "is_dir fs0 (p @ [x])"
  shows "depth_at fs0 (p @ [x]) < depth_at fs0 p"
proof -
  from assms obtain ch where ch: "lookup fs0 (p @ [x]) = Some ch"
    by (auto simp: is_dir_iff)
  then obtain a es where pe: "lookup fs0 p = Some (Dir a es)" and m: "map_of es x = Some ch"
    by (auto simp: lookup_snoc split: option.splits node.splits)
  from m have "(x, ch) \<in> set es" by (simp add: map_of_SomeD)
  from height_entry_le[OF this] show ?thesis using ch pe by (simp add: depth_at_def)
qed

lemma path_snoc: "p \<noteq> [] \<Longrightarrow> parent p @ [name p] = p"
  by (simp add: parent_def name_def)

lemma no_dir_entry:
  assumes w: "wf_node fs0" and p: "p \<noteq> []" and nd: "\<not> is_dir fs0 p"
    and l: "lookup fs0 (parent p) = Some (Dir a es)"
  shows "\<forall>e\<in>set es. fst e = name p \<longrightarrow> \<not> is_Dir (snd e)"
proof (intro ballI impI)
  fix e assume e: "e \<in> set es" "fst e = name p"
  from wf_lookup[OF w l] have "distinct (map fst es)" by simp
  from map_of_distinct[OF this e(1)] e(2) have "map_of es (name p) = Some (snd e)" by simp
  with l have "lookup fs0 (parent p @ [name p]) = Some (snd e)" by (simp add: lookup_snoc)
  with nd p show "\<not> is_Dir (snd e)" by (simp add: path_snoc is_dir_iff)
qed

lemma filter_dirs_drop_name:
  "\<forall>e\<in>set es. fst e = n \<longrightarrow> \<not> is_Dir (snd e) \<Longrightarrow>
   filter (\<lambda>e. fst e \<noteq> n \<and> is_Dir (snd e)) es = filter (\<lambda>e. is_Dir (snd e)) es"
  by (induction es) auto

lemma dirs_only_remove:
  assumes w: "wf_node fs0" and p: "p \<noteq> []" and nd: "\<not> is_dir fs0 p"
  shows "dirs_only (remove_entry fs0 p) = dirs_only fs0"
  unfolding remove_entry_def
proof (rule dirs_only_update[OF w])
  fix a es assume "lookup fs0 (parent p) = Some (Dir a es)"
  from no_dir_entry[OF w p nd this]
  show "dirs_only (Dir a (filter (\<lambda>e. fst e \<noteq> name p) es)) = dirs_only (Dir a es)"
    by (simp add: filter_dirs_drop_name)
qed

lemma dirs_only_put:
  assumes w: "wf_node fs0" and p: "p \<noteq> []" and nd: "\<not> is_dir fs0 p" and f: "\<not> is_Dir new"
  shows "dirs_only (put_entry fs0 p new) = dirs_only fs0"
  unfolding put_entry_def
proof (rule dirs_only_update[OF w])
  fix a es assume "lookup fs0 (parent p) = Some (Dir a es)"
  from no_dir_entry[OF w p nd this] f
  show "dirs_only (Dir a (filter (\<lambda>e. fst e \<noteq> name p) es @ [(name p, new)])) = dirs_only (Dir a es)"
    by (simp add: filter_dirs_drop_name)
qed

lemma wf_remove: "wf_node fs0 \<Longrightarrow> wf_node (remove_entry fs0 p)"
  unfolding remove_entry_def
  by (rule wf_update) (auto simp: distinct_map_filter)

lemma wf_put: "wf_node fs0 \<Longrightarrow> wf_node new \<Longrightarrow> wf_node (put_entry fs0 p new)"
  unfolding put_entry_def
  by (rule wf_update) (auto simp: distinct_map_filter)

lemma is_Dir_remove [simp]: "is_Dir (remove_entry fs0 p) = is_Dir fs0"
  by (simp add: remove_entry_def)

lemma is_Dir_put [simp]: "is_Dir (put_entry fs0 p new) = is_Dir fs0"
  by (simp add: put_entry_def)

text \<open>Moving a file keeps the well-formedness and the directory structure.\<close>

lemma move_file_dirs:
  assumes w: "wf_fs fs0" and s: "src \<noteq> []" "\<not> is_dir fs0 src"
    and d: "dst \<noteq> []" "\<not> is_dir fs0 dst" and f: "\<not> is_Dir new" "wf_node new"
  shows "wf_fs (put_entry (remove_entry fs0 src) dst new)
       \<and> dirs_only (put_entry (remove_entry fs0 src) dst new) = dirs_only fs0"
proof -
  have w1: "wf_fs (remove_entry fs0 src)" using w by (simp add: wf_fs_def wf_remove)
  have d1: "dirs_only (remove_entry fs0 src) = dirs_only fs0"
    using w s by (simp add: wf_fs_def dirs_only_remove)
  have "\<not> is_dir (remove_entry fs0 src) dst"
    using same_dirs_is_dir[OF w1 w d1] d by simp
  then have "dirs_only (put_entry (remove_entry fs0 src) dst new) = dirs_only (remove_entry fs0 src)"
    using w1 d f by (simp add: wf_fs_def dirs_only_put)
  moreover have "wf_fs (put_entry (remove_entry fs0 src) dst new)"
    using w1 f by (simp add: wf_fs_def wf_put)
  ultimately show ?thesis using d1 by simp
qed

lemma os_rename_dirs:
  assumes w: "wf_fs fs0" and s: "\<not> is_dir fs0 src" and r: "os_rename pf fs0 src dst = Inr fs1"
  shows "wf_fs fs1 \<and> dirs_only fs1 = dirs_only fs0 \<and> \<not> is_dir fs0 dst"
proof (cases "src = dst")
  case True
  with r have "fs1 = fs0" by (auto simp: os_rename_def split: option.splits if_splits)
  with w s True show ?thesis by simp
next
  case False
  from r obtain nd where nd: "lookup fs0 src = Some nd"
    by (auto simp: os_rename_def split: option.splits)
  with s obtain l c where f: "nd = File l c" by (cases nd) (auto simp: is_dir_iff)
  from r nd have ne: "src \<noteq> []" "dst \<noteq> []"
    by (auto simp: os_rename_def split: if_splits)
  from r nd f False ne have fs1: "fs1 = put_entry (remove_entry fs0 src) dst nd" and nd': "\<not> is_dir fs0 dst"
    by (auto simp: os_rename_def is_dir_iff split: if_splits option.splits node.splits)
  from move_file_dirs[OF w ne(1) s ne(2) nd', of nd] f fs1 nd' show ?thesis by simp
qed

lemma fs_emit [simp]: "fs (emit lg ev w) = fs w"
  by (simp add: emit_def)

lemma is_file_not_dir: "is_file fs0 p \<Longrightarrow> \<not> is_dir fs0 p"
  by (auto simp: is_file_def is_dir_def split: option.splits node.splits)

lemma safe_rename_dirs:
  assumes w: "wf_fs (fs w)" and s: "\<not> is_dir (fs w) src"
    and r: "safe_rename pf src dst w = (res, w')"
  shows "wf_fs (fs w') \<and> dirs_only (fs w') = dirs_only (fs w)"
proof (cases "src = dst")
  case True
  with r w show ?thesis by (simp add: safe_rename_def)
next
  case ne: False
  show ?thesis
  proof (cases "exists (fs w) dst")
    case False
    show ?thesis
    proof (cases "os_rename pf (fs w) src dst")
      case (Inl e)
      with r ne False w show ?thesis by (auto simp: safe_rename_def)
    next
      case (Inr fs1)
      with r ne False have "w' = w\<lparr>fs := fs1\<rparr>" by (auto simp: safe_rename_def)
      with os_rename_dirs[OF w s Inr] show ?thesis by simp
    qed
  next
    case True
    define temp where "temp = with_name src (''__renaming__'' @ uuids w (drawn w) @ ''__'' @ name src)"
    define w1 where "w1 = w\<lparr>drawn := Suc (drawn w)\<rparr>"
    have fw1: "fs w1 = fs w" by (simp add: w1_def)
    show ?thesis
    proof (cases "os_rename pf (fs w) src temp")
      case (Inl e)
      with r ne True have "w' = w1"
        by (auto simp: safe_rename_def Let_def temp_def w1_def)
      with w fw1 show ?thesis by simp
    next
      case (Inr fs1)
      from os_rename_dirs[OF w s Inr]
      have a: "wf_fs fs1" "dirs_only fs1 = dirs_only (fs w)" "\<not> is_dir (fs w) temp" by auto
      have t: "\<not> is_dir fs1 temp" using same_dirs_is_dir[OF a(1) w a(2)] a(3) by simp
      show ?thesis
      proof (cases "os_rename pf fs1 temp dst")
        case (Inl e)
        with r ne True Inr have "w' = w1\<lparr>fs := fs1\<rparr>"
          by (auto simp: safe_rename_def Let_def temp_def w1_def)
        with a show ?thesis by simp
      next
        case (Inr fs2)
        with r ne True \<open>os_rename pf (fs w) src temp = Inr fs1\<close> have "w' = w1\<lparr>fs := fs2\<rparr>"
          by (auto simp: safe_rename_def Let_def temp_def w1_def)
        with os_rename_dirs[OF a(1) t Inr] a show ?thesis by simp
      qed
    qed
  qed
qed

lemma prefix_loop_dirs:
  "wf_fs (fs w) \<Longrightarrow> \<forall>p\<in>set entries. \<not> is_dir (fs w) p \<Longrightarrow>
   prefix_loop pf lg idx entries changed w = (n, w') \<Longrightarrow>
   wf_fs (fs w') \<and> dirs_only (fs w') = dirs_only (fs w)"
proof (induction entries arbitrary: changed w)
  case Nil
  then show ?case by simp
next
  case (Cons file_path rest)
  define dst where "dst = with_name file_path (str_int idx @ ''_'' @ name file_path)"
  obtain res w1 where sr: "safe_rename pf file_path dst w = (res, w1)"
    by (cases "safe_rename pf file_path dst w")
  from Cons.prems have nd: "\<not> is_dir (fs w) file_path" by simp
  from safe_rename_dirs[OF Cons.prems(1) nd sr]
  have a: "wf_fs (fs w1)" "dirs_only (fs w1) = dirs_only (fs w)" by auto
  have rest: "\<forall>p\<in>set rest. \<not> is_dir (fs w1) p"
    using same_dirs_is_dir[OF a(1) Cons.prems(1) a(2)] Cons.prems(2) by simp
  show ?case
  proof (cases res)
    case (Inl exc)
    with Cons.prems(3) sr
    have "prefix_loop pf lg idx rest changed (emit lg (Failed file_path exc) w1) = (n, w')"
      by (simp add: dst_def Let_def)
    from Cons.IH[OF _ _ this] a rest show ?thesis by simp
  next
    case (Inr u)
    with Cons.prems(3) sr
    have "prefix_loop pf lg idx rest (changed + 1) (emit lg (Renamed file_path dst) w1) = (n, w')"
      by (simp add: dst_def Let_def)
    from Cons.IH[OF _ _ this] a rest show ?thesis by simp
  qed
qed

lemma iterdir_error:
  "iterdir fs0 p = Inl e \<Longrightarrow> is_dir fs0 p \<Longrightarrow> e = PermissionError \<or> e = FileNotFoundError"
  by (auto simp: iterdir_def is_dir_def split: option.splits node.splits access.splits)

lemma prefix_files_in_dir_dirs:
  assumes w: "wf_fs (fs w)" and r: "prefix_files_in_dir pf lg d idx w = (res, w')"
  shows "wf_fs (fs w') \<and> dirs_only (fs w') = dirs_only (fs w)"
proof (cases "iterdir (fs w) d")
  case (Inl e)
  with r w show ?thesis by (auto simp: prefix_files_in_dir_def split: if_splits)
next
  case (Inr ps)
  show ?thesis
  proof (cases "py_sort (\<lambda>p. natural_key (name p)) (filter (is_file (fs w)) ps)")
    case (Inl e)
    with r w Inr show ?thesis by (auto simp: prefix_files_in_dir_def)
  next
    case entries: (Inr entries)
    obtain n w1 where l: "prefix_loop pf lg idx entries 0 w = (n, w1)"
      by (cases "prefix_loop pf lg idx entries 0 w")
    with r Inr entries have "w' = w1" by (auto simp: prefix_files_in_dir_def)
    moreover have "\<forall>p\<in>set entries. \<not> is_dir (fs w) p"
      using py_sort_set[OF entries] by (auto dest: is_file_not_dir)
    ultimately show ?thesis using prefix_loop_dirs[OF w _ l] by simp
  qed
qed

lemma prefix_files_in_dir_error:
  assumes "prefix_files_in_dir pf lg d idx w = (Inl e, w')" and "is_dir (fs w) d"
  shows "e = PermissionError \<or> e = ValueError \<or> e = TypeError"
proof (cases "iterdir (fs w) d")
  case (Inl e')
  with assms iterdir_error[OF Inl assms(2)] show ?thesis
    by (auto simp: prefix_files_in_dir_def split: if_splits)
next
  case (Inr ps)
  with assms show ?thesis
    by (auto simp: prefix_files_in_dir_def split: sum.splits prod.splits
        dest: py_sort_natural_error)
qed

lemma get_folder_index_error:
  assumes "get_folder_index_among_siblings fs0 d = Inl e" and "is_dir fs0 d"
  shows "e = PermissionError \<or> e = ValueError \<or> e = TypeError"
proof (cases "iterdir fs0 (parent d)")
  case (Inl e')
  with assms iterdir_error[OF Inl is_dir_parent[OF assms(2)]] show ?thesis
    by (auto simp: get_folder_index_among_siblings_def split: if_splits)
next
  case (Inr ps)
  with assms show ?thesis
    by (auto simp: get_folder_index_among_siblings_def split: sum.splits option.splits if_splits
        dest: py_sort_natural_error)
qed

lemma keeps_dirs_refl: "wf_fs fs0 \<Longrightarrow> keeps_dirs fs0 fs0"
  by (simp add: keeps_dirs_def)

lemma keeps_dirs_trans: "keeps_dirs a b \<Longrightarrow> keeps_dirs b c \<Longrightarrow> keeps_dirs a c"
  by (simp add: keeps_dirs_def)

lemma keeps_is_dir: "wf_fs a \<Longrightarrow> keeps_dirs a b \<Longrightarrow> is_dir b p = is_dir a p"
  unfolding keeps_dirs_def by (metis same_dirs_is_dir)

lemma keeps_depth: "wf_fs a \<Longrightarrow> keeps_dirs a b \<Longrightarrow> depth_at b p = depth_at a p"
  unfolding keeps_dirs_def by (metis same_dirs_depth)

lemma iterdir_children: "iterdir fs0 p = Inr ps \<Longrightarrow> q \<in> set ps \<Longrightarrow> \<exists>x. q = p @ [x]"
  by (auto simp: iterdir_def split: option.splits node.splits access.splits)

lemma depth_dir_pos: "is_dir fs0 p \<Longrightarrow> 0 < depth_at fs0 p"
  by (auto simp: is_dir_def depth_at_def split: option.splits node.splits)

lemma for_siblings_good:
  assumes b: "body_ok fsof body"
    and sub: "\<And>root s. wf_fs (fsof s) \<Longrightarrow> is_dir (fsof s) root \<Longrightarrow> depth_at (fsof s) root \<le> n
                \<Longrightarrow> good_run fsof s (for_subdirs n fsof body root s)"
  shows "wf_fs (fsof s) \<Longrightarrow> \<forall>sd\<in>set sds. is_dir (fsof s) sd \<and> depth_at (fsof s) sd \<le> n
           \<Longrightarrow> good_run fsof s (for_siblings n fsof body sds s)"
proof (induction sds arbitrary: s)
  case Nil
  then show ?case by (simp add: good_run_def keeps_dirs_refl)
next
  case (Cons sd sds)
  obtain r s1 where bd: "body sd s = (r, s1)" by (cases "body sd s")
  from Cons.prems have sdd: "is_dir (fsof s) sd" "depth_at (fsof s) sd \<le> n" by auto
  from b Cons.prems(1) sdd(1) bd
  have k1: "keeps_dirs (fsof s) (fsof s1)" and e1: "\<forall>e. r = Inl e \<longrightarrow> escapes e"
    unfolding body_ok_def by blast+
  show ?case
  proof (cases r)
    case (Inl e)
    with bd k1 e1 show ?thesis by (simp add: good_run_def)
  next
    case (Inr u)
    have w1: "wf_fs (fsof s1)" using k1 by (simp add: keeps_dirs_def)
    have "is_dir (fsof s1) sd" "depth_at (fsof s1) sd \<le> n"
      using sdd keeps_is_dir[OF Cons.prems(1) k1] keeps_depth[OF Cons.prems(1) k1] by auto
    from sub[OF w1 this] obtain r2 s2 where
      f: "for_subdirs n fsof body sd s1 = Some (r2, s2)" and k2: "keeps_dirs (fsof s1) (fsof s2)"
      and e2: "\<forall>e. r2 = Inl e \<longrightarrow> escapes e"
      by (auto simp: good_run_def)
    have k02: "keeps_dirs (fsof s) (fsof s2)" using keeps_dirs_trans[OF k1 k2] .
    show ?thesis
    proof (cases r2)
      case (Inl e)
      with bd Inr f k02 e2 show ?thesis by (simp add: good_run_def)
    next
      case r2: (Inr u2)
      have w2: "wf_fs (fsof s2)" using k02 by (simp add: keeps_dirs_def)
      have "\<forall>sd\<in>set sds. is_dir (fsof s2) sd \<and> depth_at (fsof s2) sd \<le> n"
        using Cons.prems(2) keeps_is_dir[OF Cons.prems(1) k02] keeps_depth[OF Cons.prems(1) k02]
        by auto
      from Cons.IH[OF w2 this] obtain r3 s3 where
        g: "for_siblings n fsof body sds s2 = Some (r3, s3)" and k3: "keeps_dirs (fsof s2) (fsof s3)"
        and e3: "\<forall>e. r3 = Inl e \<longrightarrow> escapes e"
        by (auto simp: good_run_def)
      from bd Inr f r2 g keeps_dirs_trans[OF k02 k3] e3 show ?thesis
        by (simp add: good_run_def)
    qed
  qed
qed

lemma for_subdirs_good:
  assumes b: "body_ok fsof body"
  shows "wf_fs (fsof s) \<Longrightarrow> is_dir (fsof s) root \<Longrightarrow> depth_at (fsof s) root \<le> n
           \<Longrightarrow> good_run fsof s (for_subdirs n fsof body root s)"
proof (induction n arbitrary: root s)
  case 0
  then show ?case using depth_dir_pos[of "fsof s" root] by simp
next
  case (Suc n)
  show ?case
  proof (cases "iterdir (fsof s) root")
    case (Inl e)
    with iterdir_error[OF Inl Suc.prems(2)] Suc.prems(1) show ?thesis
      by (auto simp: good_run_def keeps_dirs_refl escapes_def)
  next
    case (Inr ps)
    show ?thesis
    proof (cases "py_sort (\<lambda>p. natural_key (name p)) (filter (is_dir (fsof s)) ps)")
      case (Inl e)
      with Inr py_sort_natural_error[OF Inl] Suc.prems(1) show ?thesis
        by (auto simp: good_run_def keeps_dirs_refl escapes_def)
    next
      case subdirs: (Inr subdirs)
      have "\<forall>sd\<in>set subdirs. is_dir (fsof s) sd \<and> depth_at (fsof s) sd \<le> n"
      proof
        fix sd assume "sd \<in> set subdirs"
        with py_sort_set[OF subdirs] have m: "sd \<in> set ps" "is_dir (fsof s) sd" by auto
        from iterdir_children[OF Inr m(1)] obtain x where "sd = root @ [x]" by blast
        with depth_child[of "fsof s" root x] m(2) Suc.prems(3)
        show "is_dir (fsof s) sd \<and> depth_at (fsof s) sd \<le> n" by simp
      qed
      from for_siblings_good[OF b Suc.IH Suc.prems(1) this]
      show ?thesis using Inr subdirs by simp
    qed
  qed
qed

lemma visit_body_ok: "body_ok (\<lambda>s. fs (snd s)) (visit pf lg msg)"
  unfolding body_ok_def
proof (intro allI impI, elim conjE)
  fix d and tw :: "int \<times> world" and r and tw' :: "int \<times> world"
  assume w: "wf_fs (fs (snd tw))" and d: "is_dir (fs (snd tw)) d"
    and v: "visit pf lg msg d tw = (r, tw')"
  show "keeps_dirs (fs (snd tw)) (fs (snd tw')) \<and> (\<forall>e. r = Inl e \<longrightarrow> escapes e)"
  proof (cases "get_folder_index_among_siblings (fs (snd tw)) d")
    case (Inl e)
    with v have "r = Inl e" "tw' = tw" by (auto simp: visit_def)
    with get_folder_index_error[OF Inl d] w show ?thesis
      by (simp add: keeps_dirs_refl escapes_def)
  next
    case (Inr idx)
    define w0 where "w0 = emit lg (msg d idx) (snd tw)"
    obtain res w1 where p: "prefix_files_in_dir pf lg d idx w0 = (res, w1)"
      by (cases "prefix_files_in_dir pf lg d idx w0")
    have w0: "wf_fs (fs w0)" "is_dir (fs w0) d" using w d by (simp_all add: w0_def)
    from prefix_files_in_dir_dirs[OF w0(1) p]
    have k: "keeps_dirs (fs (snd tw)) (fs w1)" by (simp add: keeps_dirs_def w0_def)
    show ?thesis
    proof (cases res)
      case (Inl e)
      with v Inr p have "r = Inl e" "snd tw' = w1" by (auto simp: visit_def w0_def)
      with prefix_files_in_dir_error[OF p[unfolded Inl] w0(2)] k show ?thesis
        by (simp add: escapes_def)
    next
      case (Inr n)
      with v \<open>get_folder_index_among_siblings (fs (snd tw)) d = Inr idx\<close> p
      have "r = Inr ()" "snd tw' = w1" by (auto simp: visit_def w0_def)
      with k show ?thesis by simp
    qed
  qed
qed

lemma body_okD:
  "body_ok fsof body \<Longrightarrow> wf_fs (fsof s) \<Longrightarrow> is_dir (fsof s) d \<Longrightarrow> body d s = (r, s') \<Longrightarrow>
   keeps_dirs (fsof s) (fsof s') \<and> (\<forall>e. r = Inl e \<longrightarrow> escapes e)"
  unfolding body_ok_def by blast

lemma depth_le_height: "depth_at fs0 p \<le> height fs0"
proof (induction fs0 p rule: lookup.induct)
  case (1 n)
  then show ?case by (simp add: depth_at_def)
next
  case (2 l c x p)
  then show ?case by (simp add: depth_at_def)
next
  case (3 a es x p)
  show ?case
  proof (cases "map_of es x")
    case None
    then show ?thesis by (simp add: depth_at_def)
  next
    case (Some ch)
    then have "(x, ch) \<in> set es" by (simp add: map_of_SomeD)
    from height_entry_le[OF this] "3.IH"[OF Some] Some show ?thesis
      by (simp add: depth_at_def)
  qed
qed

text \<open>A run on a valid root returns or raises, within the bound on the recursion, and
  keeps the directory structure; what it raises is never the error of an invalid root.\<close>

lemma rename_files_in_tree_good:
  assumes w: "wf_fs (fs w)" and d: "is_dir (fs w) root"
  shows "\<exists>r w'. rename_files_in_tree pf root inc lg w = Some (r, w')
           \<and> keeps_dirs (fs w) (fs w') \<and> (\<forall>e. r = Inl e \<longrightarrow> escapes e)"
proof -
  have ex: "exists (fs w) root" using d by (auto simp: exists_def is_dir_iff)
  define first where "first = (if inc then visit pf lg ProcessingRoot root (0, w) else (Inr (), (0, w)))"
  obtain r1 tw1 where f: "first = (r1, tw1)" by (cases first)
  have k1: "keeps_dirs (fs w) (fs (snd tw1)) \<and> (\<forall>e. r1 = Inl e \<longrightarrow> escapes e)"
  proof (cases inc)
    case True
    with f have v: "visit pf lg ProcessingRoot root (0, w) = (r1, tw1)" by (simp add: first_def)
    from body_okD[OF visit_body_ok _ _ v] w d show ?thesis by simp
  next
    case False
    with f w show ?thesis by (auto simp: first_def keeps_dirs_refl)
  qed
  then have e1: "\<forall>e. r1 = Inl e \<longrightarrow> escapes e" by simp
  from k1 have k1: "keeps_dirs (fs w) (fs (snd tw1))" by simp
  show ?thesis
  proof (cases r1)
    case (Inl e)
    with f ex d k1 e1 show ?thesis
      by (simp add: rename_files_in_tree_def first_def[symmetric])
  next
    case (Inr u)
    have w1: "wf_fs (fs (snd tw1))" using k1 by (simp add: keeps_dirs_def)
    have d1: "is_dir (fs (snd tw1)) root" using keeps_is_dir[OF w k1] d by simp
    from for_subdirs_good[OF visit_body_ok, of tw1 root "height (fs (snd tw1))" pf lg Processing]
      w1 d1 depth_le_height[of "fs (snd tw1)" root]
    obtain r2 tw2 where
      g: "for_subdirs (height (fs (snd tw1))) (\<lambda>s. fs (snd s)) (visit pf lg Processing) root tw1
            = Some (r2, tw2)"
      and k2: "keeps_dirs (fs (snd tw1)) (fs (snd tw2))" and e2: "\<forall>e. r2 = Inl e \<longrightarrow> escapes e"
      by (auto simp: good_run_def)
    have k: "keeps_dirs (fs w) (fs (snd tw2))" using keeps_dirs_trans[OF k1 k2] .
    show ?thesis
    proof (cases r2)
      case (Inl e)
      with f ex d Inr g k e2 show ?thesis
        by (simp add: rename_files_in_tree_def first_def[symmetric])
    next
      case r2: (Inr u2)
      with f ex d Inr g k show ?thesis
        by (simp add: rename_files_in_tree_def first_def[symmetric])
    qed
  qed
qed



lemma events_safe_rename: "safe_rename pf src dst w = (r, w') \<Longrightarrow> events w' = events w"
  by (auto simp: safe_rename_def Let_def split: if_splits sum.splits)



lemma new_events_append: "events w' = events w @ evs \<Longrightarrow> new_events w w' = evs"
  by (simp add: new_events_def)



lemma for_siblings_invariant:
  assumes step: "\<And>d s r s'. I s \<Longrightarrow> body d s = (r, s') \<Longrightarrow> I s'"
    and sub: "\<And>root s r s'. I s \<Longrightarrow> for_subdirs n fsof body root s = Some (r, s') \<Longrightarrow> I s'"
  shows "I s \<Longrightarrow> for_siblings n fsof body sds s = Some (r, s') \<Longrightarrow> I s'"
proof (induction sds arbitrary: s)
  case Nil
  then show ?case by simp
next
  case (Cons sd sds)
  obtain rb s1 where bd: "body sd s = (rb, s1)" by (cases "body sd s")
  have i1: "I s1" using step[OF Cons.prems(1) bd] .
  show ?case
  proof (cases rb)
    case (Inl e)
    with Cons.prems(2) bd i1 show ?thesis by simp
  next
    case (Inr u)
    show ?thesis
    proof (cases "for_subdirs n fsof body sd s1")
      case None
      with Cons.prems(2) bd Inr show ?thesis by simp
    next
      case (Some rs)
      obtain r2 s2 where rs: "rs = (r2, s2)" by (cases rs)
      have i2: "I s2" using sub[OF i1] Some rs by simp
      show ?thesis
      proof (cases r2)
        case (Inl e)
        with Cons.prems(2) bd Inr Some rs i2 show ?thesis by simp
      next
        case r2: (Inr u2)
        with Cons.prems(2) bd Inr Some rs
        have "for_siblings n fsof body sds s2 = Some (r, s')" by simp
        from Cons.IH[OF i2 this] show ?thesis .
      qed
    qed
  qed
qed

lemma for_subdirs_invariant:
  assumes step: "\<And>d s r s'. I s \<Longrightarrow> body d s = (r, s') \<Longrightarrow> I s'"
  shows "I s \<Longrightarrow> for_subdirs n fsof body root s = Some (r, s') \<Longrightarrow> I s'"
proof (induction n arbitrary: root s r s')
  case 0
  then show ?case by simp
next
  case (Suc n)
  show ?case
  proof (cases "iterdir (fsof s) root")
    case (Inl e)
    with Suc.prems show ?thesis by (auto split: if_splits)
  next
    case (Inr ps)
    show ?thesis
    proof (cases "py_sort (\<lambda>p. natural_key (name p)) (filter (is_dir (fsof s)) ps)")
      case (Inl e)
      with Suc.prems Inr show ?thesis by auto
    next
      case subdirs: (Inr subdirs)
      with Suc.prems(2) Inr have "for_siblings n fsof body subdirs s = Some (r, s')" by simp
      from for_siblings_invariant[where I = I, OF step Suc.IH Suc.prems(1) this]
      show ?thesis .
    qed
  qed
qed





lemmas run_eval =
  py_sort_def with_key_def prefix_files_in_dir_def safe_rename_def emit_def visit_def
  get_folder_index_among_siblings_def rename_files_in_tree_def Let_def



text \<open>
  C3 (fails on the code). The listing of the directory \<open>a\<close> is denied: \<open>iterdir\<close> raises
  \<open>PermissionError\<close>, which no \<open>except FileNotFoundError\<close> catches. The run on the
  anchor is aborted after the progress message for \<open>a\<close>, the sibling \<open>b\<close> is never
  processed, and the traversal alone is aborted as well, after yielding \<open>a\<close>.
\<close>

theorem denied_directory_aborts_run:
  "rename_files_in_tree Windows [] False True (unlistable_world Denied)
     = Some (Inl PermissionError, (unlistable_world Denied)\<lparr>events := [Processing [''a''] 1]\<rparr>)
   \<and> iter_subdirs_natural (fs (unlistable_world Denied)) [] = Some (Inl PermissionError, [[''a'']])"
  by (simp add: unlistable_world_def iter_subdirs_natural_def fs_eval key_eval run_eval)

text \<open>
  C3 as amended. A directory whose listing raises \<open>FileNotFoundError\<close> never aborts the
  run: a run on a valid root returns or raises, and never raises \<open>FileNotFoundError\<close>;
  \<open>_prefix_files_in_dir\<close> returns 0 on such a directory and leaves the state as it is;
  and the traversal, having yielded such a directory, goes on with the remaining
  siblings from the state the consumer left. A listing that raises \<open>PermissionError\<close>
  ends the traversal with that error.
\<close>

theorem vanished_directory_skipped:
  "(wf_fs (fs w) \<and> is_dir (fs w) root \<longrightarrow>
      (\<exists>r w'. rename_files_in_tree pf root inc lg w = Some (r, w') \<and> r \<noteq> Inl FileNotFoundError))
   \<and> (iterdir (fs v) d = Inl FileNotFoundError \<longrightarrow>
        prefix_files_in_dir pf lg d idx v = (Inr 0, v))
   \<and> (body sd s = (Inr (), st) \<and> iterdir (fsof st) sd = Inl FileNotFoundError \<longrightarrow>
        for_siblings (Suc n) fsof body (sd # sds) s = for_siblings (Suc n) fsof body sds st)
   \<and> (body sd s = (Inr (), st) \<and> iterdir (fsof st) sd = Inl PermissionError \<longrightarrow>
        for_siblings (Suc n) fsof body (sd # sds) s = Some (Inl PermissionError, st))"
proof (intro conjI impI)
  assume a: "wf_fs (fs w) \<and> is_dir (fs w) root"
  from rename_files_in_tree_good[of w root pf inc lg] a
  obtain r w' where r: "rename_files_in_tree pf root inc lg w = Some (r, w')"
    and e: "\<forall>e. r = Inl e \<longrightarrow> escapes e" by blast
  from e have "r \<noteq> Inl FileNotFoundError" by (auto simp: escapes_def)
  with r show "\<exists>r w'. rename_files_in_tree pf root inc lg w = Some (r, w')
      \<and> r \<noteq> Inl FileNotFoundError" by blast
next
  assume "iterdir (fs v) d = Inl FileNotFoundError"
  then show "prefix_files_in_dir pf lg d idx v = (Inr 0, v)"
    by (simp add: prefix_files_in_dir_def)
next
  assume "body sd s = (Inr (), st) \<and> iterdir (fsof st) sd = Inl FileNotFoundError"
  then show "for_siblings (Suc n) fsof body (sd # sds) s = for_siblings (Suc n) fsof body sds st"
    by simp
next
  assume "body sd s = (Inr (), st) \<and> iterdir (fsof st) sd = Inl PermissionError"
  then show "for_siblings (Suc n) fsof body (sd # sds) s = Some (Inl PermissionError, st)"
    by simp
qed

theorem vanished_directory_skipped_witness:
  "wf_fs (fs (unlistable_world Vanished)) \<and> is_dir (fs (unlistable_world Vanished)) []
   \<and> (\<exists>r w'. rename_files_in_tree Windows [] False True (unlistable_world Vanished) = Some (r, w')
         \<and> r \<noteq> Inl FileNotFoundError)
   \<and> rename_files_in_tree Windows [] False True (unlistable_world Vanished)
      = Some (Inr 1, (unlistable_world Vanished)
          \<lparr>fs := Dir Listable [(''a'', Dir Vanished []),
                                (''b'', Dir Listable [(''2_f.txt'', File False ''f'')])],
            events := [Processing [''a''] 1, Processing [''b''] 2,
                       Renamed [''b'', ''f.txt''] [''b'', ''2_f.txt''], Done 1]\<rparr>)
   \<and> iterdir (fs (unlistable_world Vanished)) [''a''] = Inl FileNotFoundError
   \<and> prefix_files_in_dir Windows True [''a''] 1 (unlistable_world Vanished)
      = (Inr 0, unlistable_world Vanished)
   \<and> for_siblings (Suc 0) (\<lambda>s. fs (unlistable_world Vanished)) (\<lambda>sd acc. (Inr (), acc @ [sd]))
        [[''a''], [''b'']] []
      = for_siblings (Suc 0) (\<lambda>s. fs (unlistable_world Vanished)) (\<lambda>sd acc. (Inr (), acc @ [sd]))
        [[''b'']] [[''a'']]
   \<and> iterdir (fs (unlistable_world Denied)) [''a''] = Inl PermissionError
   \<and> for_siblings (Suc 0) (\<lambda>s. fs (unlistable_world Denied)) (\<lambda>sd acc. (Inr (), acc @ [sd]))
        [[''a''], [''b'']] []
      = Some (Inl PermissionError, [[''a'']])"
proof -
  let ?V = "unlistable_world Vanished" and ?D = "unlistable_world Denied"
  let ?body = "\<lambda>sd (acc :: path list). (Inr () :: py_error + unit, acc @ [sd])"
  have h1: "wf_fs (fs ?V) \<and> is_dir (fs ?V) []"
    by (simp add: unlistable_world_def wf_fs_def is_dir_def)
  have h2: "iterdir (fs ?V) [''a''] = Inl FileNotFoundError"
    by (simp add: unlistable_world_def fs_eval)
  have h3: "?body [''a''] [] = (Inr (), [[''a'']]) \<and> iterdir (fs ?V) [''a''] = Inl FileNotFoundError"
    using h2 by simp
  have h4: "iterdir (fs ?D) [''a''] = Inl PermissionError"
    by (simp add: unlistable_world_def fs_eval)
  have h5: "?body [''a''] [] = (Inr (), [[''a'']]) \<and> iterdir (fs ?D) [''a''] = Inl PermissionError"
    using h4 by simp
  note t = vanished_directory_skipped[where w = ?V and root = "[]" and pf = Windows and inc = False
      and lg = True and v = ?V and d = "[''a'']" and idx = 1 and body = ?body and sd = "[''a'']"
      and s = "[]" and st = "[[''a'']]" and n = 0 and sds = "[[''b'']]"]
  from t[where fsof = "\<lambda>s. fs ?V"] h1
  have c1: "\<exists>r w'. rename_files_in_tree Windows [] False True ?V = Some (r, w')
         \<and> r \<noteq> Inl FileNotFoundError" by blast
  from t[where fsof = "\<lambda>s. fs ?V"] h2
  have c2: "prefix_files_in_dir Windows True [''a''] 1 ?V = (Inr 0, ?V)" by blast
  from t[where fsof = "\<lambda>s. fs ?V"] h3
  have c3: "for_siblings (Suc 0) (\<lambda>s. fs ?V) ?body [[''a''], [''b'']] []
      = for_siblings (Suc 0) (\<lambda>s. fs ?V) ?body [[''b'']] [[''a'']]" by blast
  from t[where fsof = "\<lambda>s. fs ?D"] h5
  have c4: "for_siblings (Suc 0) (\<lambda>s. fs ?D) ?body [[''a''], [''b'']] []
      = Some (Inl PermissionError, [[''a'']])" by blast
  have run: "rename_files_in_tree Windows [] False True ?V
      = Some (Inr 1, ?V
          \<lparr>fs := Dir Listable [(''a'', Dir Vanished []),
                                (''b'', Dir Listable [(''2_f.txt'', File False ''f'')])],
            events := [Processing [''a''] 1, Processing [''b''] 2,
                       Renamed [''b'', ''f.txt''] [''b'', ''2_f.txt''], Done 1]\<rparr>)"
    by (simp add: unlistable_world_def fs_eval key_eval run_eval)
  from h1 h2 h4 c1 c2 c3 c4 run show ?thesis by blast
qed

lemma emit_events: "events (emit lg ev w) = events w @ (if lg then [ev] else [])"
  by (simp add: emit_def)

lemma prefix_loop_attempts:
  "prefix_loop pf lg idx entries changed w = (n, w') \<Longrightarrow>
   \<exists>evs. events w' = events w @ evs \<and> (\<forall>ev\<in>set evs. \<exists>p\<in>set entries. attempt_src ev = Some p)"
proof (induction entries arbitrary: changed w)
  case Nil
  then show ?case by simp
next
  case (Cons file_path rest)
  define dst where "dst = with_name file_path (str_int idx @ ''_'' @ name file_path)"
  obtain res w1 where sr: "safe_rename pf file_path dst w = (res, w1)"
    by (cases "safe_rename pf file_path dst w")
  have ev1: "events w1 = events w" using events_safe_rename[OF sr] .
  define ev where "ev = (case res of Inl exc \<Rightarrow> Failed file_path exc | Inr u \<Rightarrow> Renamed file_path dst)"
  define c where "c = (case res of Inl exc \<Rightarrow> changed | Inr u \<Rightarrow> changed + 1)"
  have a: "attempt_src ev = Some file_path" by (cases res) (simp_all add: ev_def)
  from Cons.prems sr have "prefix_loop pf lg idx rest c (emit lg ev w1) = (n, w')"
    by (cases res) (simp_all add: dst_def Let_def ev_def c_def)
  from Cons.IH[OF this] obtain evs where
    e: "events w' = events (emit lg ev w1) @ evs"
       "\<forall>ev\<in>set evs. \<exists>p\<in>set rest. attempt_src ev = Some p" by blast
  have "events w' = events w @ ((if lg then [ev] else []) @ evs)"
    using e(1) ev1 by (simp add: emit_events)
  moreover have "\<forall>ev\<in>set ((if lg then [ev] else []) @ evs).
      \<exists>p\<in>set (file_path # rest). attempt_src ev = Some p"
    using e(2) a by auto
  ultimately show ?case by blast
qed

text \<open>Every call of \<open>_safe_rename\<close> made by \<open>_prefix_files_in_dir\<close> has for source an
  entry of the directory that was a file when the directory was listed.\<close>

lemma prefix_files_in_dir_attempts:
  assumes r: "prefix_files_in_dir pf lg d idx w = (res, w')"
  shows "\<exists>evs. events w' = events w @ evs
           \<and> (\<forall>ev\<in>set evs. \<exists>p. attempt_src ev = Some p \<and> is_file (fs w) p \<and> parent p = d)"
proof (cases "iterdir (fs w) d")
  case (Inl e)
  with r show ?thesis by (auto simp: prefix_files_in_dir_def split: if_splits)
next
  case (Inr ps)
  show ?thesis
  proof (cases "py_sort (\<lambda>p. natural_key (name p)) (filter (is_file (fs w)) ps)")
    case (Inl e)
    with r Inr show ?thesis by (auto simp: prefix_files_in_dir_def)
  next
    case entries: (Inr entries)
    obtain n w1 where l: "prefix_loop pf lg idx entries 0 w = (n, w1)"
      by (cases "prefix_loop pf lg idx entries 0 w")
    with r Inr entries have w': "w' = w1" by (auto simp: prefix_files_in_dir_def)
    from prefix_loop_attempts[OF l] obtain evs where
      e: "events w1 = events w @ evs" "\<forall>ev\<in>set evs. \<exists>p\<in>set entries. attempt_src ev = Some p"
      by blast
    have f: "\<forall>p\<in>set entries. is_file (fs w) p \<and> parent p = d"
    proof
      fix p assume "p \<in> set entries"
      with py_sort_set[OF entries] have m: "p \<in> set ps" "is_file (fs w) p" by auto
      from iterdir_children[OF Inr m(1)] obtain x where "p = d @ [x]" by blast
      with m(2) show "is_file (fs w) p \<and> parent p = d" by (simp add: parent_def)
    qed
    from e(2) f have "\<forall>ev\<in>set evs. \<exists>p. attempt_src ev = Some p \<and> is_file (fs w) p \<and> parent p = d"
      by blast
    with e(1) w' show ?thesis by blast
  qed
qed

lemma visit_attempts:
  assumes w: "wf_fs (fs (snd tw))" and v: "visit pf lg msg d tw = (r, tw')"
    and m: "\<And>d i. attempt_src (msg d i) = None"
  shows "wf_fs (fs (snd tw')) \<and> dirs_only (fs (snd tw')) = dirs_only (fs (snd tw))
       \<and> (\<exists>evs. events (snd tw') = events (snd tw) @ evs
             \<and> (\<forall>ev\<in>set evs. \<forall>src. attempt_src ev = Some src \<longrightarrow> is_file (fs (snd tw)) src))"
proof (cases "get_folder_index_among_siblings (fs (snd tw)) d")
  case (Inl e)
  with v have "tw' = tw" by (auto simp: visit_def)
  with w show ?thesis by simp
next
  case (Inr idx)
  define w0 where "w0 = emit lg (msg d idx) (snd tw)"
  obtain res w1 where p: "prefix_files_in_dir pf lg d idx w0 = (res, w1)"
    by (cases "prefix_files_in_dir pf lg d idx w0")
  from v Inr p have s: "snd tw' = w1" by (cases res) (auto simp: visit_def w0_def)
  have w0: "wf_fs (fs w0)" "fs w0 = fs (snd tw)" using w by (simp_all add: w0_def)
  from prefix_files_in_dir_dirs[OF w0(1) p] w0(2)
  have k: "wf_fs (fs w1) \<and> dirs_only (fs w1) = dirs_only (fs (snd tw))" by simp
  from prefix_files_in_dir_attempts[OF p] obtain evs where
    e: "events w1 = events w0 @ evs"
       "\<forall>ev\<in>set evs. \<exists>p. attempt_src ev = Some p \<and> is_file (fs w0) p \<and> parent p = d" by blast
  have "events w1 = events (snd tw) @ ((if lg then [msg d idx] else []) @ evs)"
    using e(1) by (simp add: w0_def emit_events)
  moreover have "\<forall>ev\<in>set ((if lg then [msg d idx] else []) @ evs).
      \<forall>src. attempt_src ev = Some src \<longrightarrow> is_file (fs (snd tw)) src"
    using e(2) m[of d idx] w0(2) by auto
  ultimately show ?thesis using k s by blast
qed

lemma rename_files_in_tree_attempts:
  assumes w: "wf_fs (fs w)" and r: "rename_files_in_tree pf root inc lg w = Some (r, w')"
  shows "\<exists>evs. events w' = events w @ evs
           \<and> (\<forall>ev\<in>set evs. \<forall>src. attempt_src ev = Some src \<longrightarrow> \<not> is_dir (fs w) src)"
proof (cases "\<not> exists (fs w) root \<or> \<not> is_dir (fs w) root")
  case True
  with r have "w' = w" by (simp add: rename_files_in_tree_def)
  then show ?thesis by simp
next
  case valid: False
  define I where "I = (\<lambda>tw :: int \<times> world.
     wf_fs (fs (snd tw)) \<and> dirs_only (fs (snd tw)) = dirs_only (fs w)
     \<and> (\<exists>evs. events (snd tw) = events w @ evs
           \<and> (\<forall>ev\<in>set evs. \<forall>src. attempt_src ev = Some src \<longrightarrow> \<not> is_dir (fs w) src)))"
  have step: "I s'" if i: "I s" and v: "visit pf lg msg d s = (rr, s')"
    and m: "\<And>d i. attempt_src (msg d i) = None" for msg d s rr s'
  proof -
    from i have ws: "wf_fs (fs (snd s))" and ds: "dirs_only (fs (snd s)) = dirs_only (fs w)"
      by (simp_all add: I_def)
    from i obtain evs where e: "events (snd s) = events w @ evs"
      "\<forall>ev\<in>set evs. \<forall>src. attempt_src ev = Some src \<longrightarrow> \<not> is_dir (fs w) src"
      by (auto simp: I_def)
    from visit_attempts[OF ws v m] obtain evs' where
      k: "wf_fs (fs (snd s'))" "dirs_only (fs (snd s')) = dirs_only (fs (snd s))"
      and e': "events (snd s') = events (snd s) @ evs'"
        "\<forall>ev\<in>set evs'. \<forall>src. attempt_src ev = Some src \<longrightarrow> is_file (fs (snd s)) src"
      by blast
    have nd: "is_file (fs (snd s)) src \<Longrightarrow> \<not> is_dir (fs w) src" for src
      using is_file_not_dir[of "fs (snd s)" src] same_dirs_is_dir[OF ws w ds, of src] by simp
    have "events (snd s') = events w @ (evs @ evs')" using e(1) e'(1) by simp
    moreover have "\<forall>ev\<in>set (evs @ evs'). \<forall>src. attempt_src ev = Some src \<longrightarrow> \<not> is_dir (fs w) src"
      using e(2) e'(2) nd by auto
    ultimately show ?thesis using k ds unfolding I_def by (metis (no_types, lifting))
  qed
  have fin: "\<exists>evs. events u = events w @ evs
           \<and> (\<forall>ev\<in>set evs. \<forall>src. attempt_src ev = Some src \<longrightarrow> \<not> is_dir (fs w) src)"
    if "I tw" and "u = snd tw \<or> u = emit lg (Done c) (snd tw)" for tw u c
  proof -
    from that(1) obtain evs where e: "events (snd tw) = events w @ evs"
      "\<forall>ev\<in>set evs. \<forall>src. attempt_src ev = Some src \<longrightarrow> \<not> is_dir (fs w) src"
      by (auto simp: I_def)
    from that(2) show ?thesis
    proof
      assume "u = snd tw"
      with e show ?thesis by blast
    next
      assume "u = emit lg (Done c) (snd tw)"
      then have "events u = events w @ (evs @ (if lg then [Done c] else []))"
        using e(1) by (simp add: emit_events)
      moreover have "\<forall>ev\<in>set (evs @ (if lg then [Done c] else [])).
          \<forall>src. attempt_src ev = Some src \<longrightarrow> \<not> is_dir (fs w) src"
        using e(2) by auto
      ultimately show ?thesis by blast
    qed
  qed
  define first where "first = (if inc then visit pf lg ProcessingRoot root (0, w) else (Inr (), (0, w)))"
  obtain r1 tw1 where f: "first = (r1, tw1)" by (cases first)
  have i0: "I (0, w)" using w by (simp add: I_def)
  have i1: "I tw1"
  proof (cases inc)
    case True
    with f have "visit pf lg ProcessingRoot root (0, w) = (r1, tw1)" by (simp add: first_def)
    from step[OF i0 this] show ?thesis by simp
  next
    case False
    with f i0 show ?thesis by (auto simp: first_def)
  qed
  show ?thesis
  proof (cases r1)
    case (Inl e)
    with r f valid have "w' = snd tw1"
      by (simp add: rename_files_in_tree_def first_def[symmetric])
    with fin[OF i1] show ?thesis by blast
  next
    case (Inr u)
    with r f valid obtain r2 tw2 where
      g: "for_subdirs (height (fs (snd tw1))) (\<lambda>s. fs (snd s)) (visit pf lg Processing) root tw1
            = Some (r2, tw2)"
      and w': "w' = snd tw2 \<or> w' = emit lg (Done (fst tw2)) (snd tw2)"
      by (auto simp: rename_files_in_tree_def first_def[symmetric]
          split: option.splits sum.splits prod.splits)
    have st: "\<And>d s r s'. I s \<Longrightarrow> visit pf lg Processing d s = (r, s') \<Longrightarrow> I s'"
      using step[where msg = Processing] by simp
    have "I tw2" using for_subdirs_invariant[where I = I, OF st i1 g] .
    from fin[OF this w'] show ?thesis .
  qed
qed

text \<open>
  C10. A run of \<open>rename_files_in_tree\<close> on a directory of a well-formed filesystem returns
  or raises, and leaves the directory structure as it was: the tree without its files is
  the same before and after, so the same paths are directories. What the run logs extends
  the log of the call, and no call of \<open>_safe_rename\<close> reported there has a directory for
  source. In \<open>_prefix_files_in_dir\<close>, the only caller of \<open>_safe_rename\<close>, every source
  is an entry of the directory that was a file when the directory was listed.
\<close>

theorem rename_tree_keeps_directories:
  assumes "wf_fs (fs w)" and "is_dir (fs w) root"
    and "prefix_files_in_dir pf lg d idx v = (res, v')"
  shows "(\<exists>r w'. rename_files_in_tree pf root inc lg w = Some (r, w')
            \<and> dirs_only (fs w') = dirs_only (fs w)
            \<and> (\<forall>p. is_dir (fs w') p = is_dir (fs w) p)
            \<and> events w' = events w @ new_events w w'
            \<and> (\<forall>ev\<in>set (new_events w w'). \<forall>src. attempt_src ev = Some src \<longrightarrow> \<not> is_dir (fs w) src))
       \<and> events v' = events v @ new_events v v'
       \<and> (\<forall>ev\<in>set (new_events v v'). \<forall>src. attempt_src ev = Some src \<longrightarrow>
             is_file (fs v) src \<and> parent src = d)"
proof -
  from rename_files_in_tree_good[OF assms(1,2), of pf inc lg] obtain r w' where
    run: "rename_files_in_tree pf root inc lg w = Some (r, w')" and k: "keeps_dirs (fs w) (fs w')"
    by blast
  from k have d: "dirs_only (fs w') = dirs_only (fs w)" by (simp add: keeps_dirs_def)
  have i: "\<forall>p. is_dir (fs w') p = is_dir (fs w) p" using keeps_is_dir[OF assms(1) k] by simp
  from rename_files_in_tree_attempts[OF assms(1) run] obtain evs where
    e: "events w' = events w @ evs"
       "\<forall>ev\<in>set evs. \<forall>src. attempt_src ev = Some src \<longrightarrow> \<not> is_dir (fs w) src" by blast
  from e(1) have n: "new_events w w' = evs" by (rule new_events_append)
  from prefix_files_in_dir_attempts[OF assms(3)] obtain evs' where
    e': "events v' = events v @ evs'"
        "\<forall>ev\<in>set evs'. \<exists>p. attempt_src ev = Some p \<and> is_file (fs v) p \<and> parent p = d" by blast
  from e'(1) have n': "new_events v v' = evs'" by (rule new_events_append)
  have a: "\<exists>r w'. rename_files_in_tree pf root inc lg w = Some (r, w')
            \<and> dirs_only (fs w') = dirs_only (fs w)
            \<and> (\<forall>p. is_dir (fs w') p = is_dir (fs w) p)
            \<and> events w' = events w @ new_events w w'
            \<and> (\<forall>ev\<in>set (new_events w w'). \<forall>src. attempt_src ev = Some src \<longrightarrow> \<not> is_dir (fs w) src)"
    using run d i e n by blast
  have b: "\<forall>ev\<in>set (new_events v v'). \<forall>src. attempt_src ev = Some src \<longrightarrow>
             is_file (fs v) src \<and> parent src = d"
    using e'(2) n' by auto
  from a b e'(1) n' show ?thesis by simp
qed

theorem rename_tree_keeps_directories_witness:
  "wf_fs (fs sample_world) \<and> is_dir (fs sample_world) []
   \<and> prefix_files_in_dir Windows True [''top''] 2 sample_world
     = (Inr 2, sample_world\<lparr>fs := sample_renamed, events := sample_attempts\<rparr>)
   \<and> rename_files_in_tree Windows [] False True sample_world
     = Some (Inr 2, sample_world\<lparr>fs := sample_renamed,
          events := [Processing [''a''] 1, Processing [''top''] 2] @ sample_attempts @ [Done 2]\<rparr>)
   \<and> dirs_only sample_renamed = dirs_only (fs sample_world)
   \<and> dirs_only sample_renamed = Dir Listable [(''a'', Dir Listable []), (''top'', Dir Listable [])]
   \<and> (\<exists>r w'. rename_files_in_tree Windows [] False True sample_world = Some (r, w')
         \<and> dirs_only (fs w') = dirs_only (fs sample_world)
         \<and> (\<forall>p. is_dir (fs w') p = is_dir (fs sample_world) p))
   \<and> new_events sample_world (sample_world\<lparr>fs := sample_renamed, events := sample_attempts\<rparr>)
     = sample_attempts
   \<and> is_file (fs sample_world) [''top'', ''file.txt'']
   \<and> is_file (fs sample_world) [''top'', ''log10.log'']
   \<and> is_file (fs sample_world) [''top'', ''readme.md'']"
proof -
  let ?w' = "sample_world\<lparr>fs := sample_renamed, events := sample_attempts\<rparr>"
  have h1: "wf_fs (fs sample_world)" by (simp add: sample_world_def wf_fs_def)
  have h2: "is_dir (fs sample_world) []" by (simp add: sample_world_def is_dir_def)
  have h3: "prefix_files_in_dir Windows True [''top''] 2 sample_world = (Inr 2, ?w')"
    by (simp add: sample_world_def sample_renamed_def sample_attempts_def fs_eval key_eval run_eval)
  have h4: "rename_files_in_tree Windows [] False True sample_world
     = Some (Inr 2, sample_world\<lparr>fs := sample_renamed,
          events := [Processing [''a''] 1, Processing [''top''] 2] @ sample_attempts @ [Done 2]\<rparr>)"
    by (simp add: sample_world_def sample_renamed_def sample_attempts_def fs_eval key_eval run_eval)
  have ne: "new_events sample_world ?w' = sample_attempts"
    by (simp add: new_events_def sample_world_def)
  note t = rename_tree_keeps_directories[OF h1 h2 h3, of False]
  from t have c1: "\<exists>r w'. rename_files_in_tree Windows [] False True sample_world = Some (r, w')
         \<and> dirs_only (fs w') = dirs_only (fs sample_world)
         \<and> (\<forall>p. is_dir (fs w') p = is_dir (fs sample_world) p)" by blast
  from t have c2: "\<forall>ev\<in>set (new_events sample_world ?w'). \<forall>src. attempt_src ev = Some src \<longrightarrow>
             is_file (fs sample_world) src \<and> parent src = [''top'']" by blast
  from c2[unfolded ne] have c3: "is_file (fs sample_world) [''top'', ''file.txt'']
     \<and> is_file (fs sample_world) [''top'', ''log10.log'']
     \<and> is_file (fs sample_world) [''top'', ''readme.md'']"
    by (simp add: sample_attempts_def)
  have d1: "dirs_only sample_renamed = dirs_only (fs sample_world)"
    by (simp add: sample_world_def sample_renamed_def)
  have d2: "dirs_only sample_renamed = Dir Listable [(''a'', Dir Listable []), (''top'', Dir Listable [])]"
    by (simp add: sample_renamed_def)
  from h1 h2 h3 h4 d1 d2 c1 ne c3 show ?thesis by blast
qed









lemma name_snoc [simp]: "name (p @ [x]) = x"
  by (simp add: name_def)





lemma is_dir_Nil [simp]: "is_dir nd [] = is_Dir nd"
  by (cases nd) (simp_all add: is_dir_def)






lemma str_int_one: "str_int 1 = ''1''"
  by (simp add: fs_eval key_eval)

lemma prefixed_name_differs: "n \<noteq> ''1_'' @ n" "''1_'' @ n \<noteq> n"
proof -
  have "length n \<noteq> length (''1_'' @ n)" by simp
  then show "n \<noteq> ''1_'' @ n" by metis
  then show "''1_'' @ n \<noteq> n" by metis
qed

text \<open>A run on the tree with one directory and one file renames the file, whatever
  its name is, provided the names have natural keys.\<close>

lemma one_file_run:
  assumes "has_key dn" and "has_key n" and "fs w = one_file_tree dn n c"
  shows "rename_files_in_tree pf [] False True w
         = Some (Inr 1, w\<lparr>fs := one_file_tree dn (''1_'' @ n) c,
                         events := events w @ [Processing [dn] 1,
                                               Renamed [dn, n] [dn, ''1_'' @ n], Done 1]\<rparr>)"
proof -
  from assms(1,2) obtain kd kn where k: "natural_key dn = Inr kd" "natural_key n = Inr kn"
    by (auto simp: has_key_iff)
  note d = prefixed_name_differs[of n, simplified]
  show ?thesis
    using k d assms(3)
    by (simp add: one_file_tree_def run_eval str_int_one exists_def is_dir_def is_file_def
        iterdir_def parent_def name_def with_name_def is_prefix_def put_entry_def
        remove_entry_def os_rename_def)
qed

lemma prefix_loop_destinations:
  "prefix_loop pf lg idx entries changed w = (n, w') \<Longrightarrow>
   \<exists>evs. events w' = events w @ evs
     \<and> (\<forall>ev\<in>set evs. \<forall>src dst. ev = Renamed src dst \<longrightarrow>
           dst = with_name src (str_int idx @ ''_'' @ name src))"
proof (induction entries arbitrary: changed w)
  case Nil
  then show ?case by simp
next
  case (Cons file_path rest)
  define dst where "dst = with_name file_path (str_int idx @ ''_'' @ name file_path)"
  obtain res w1 where sr: "safe_rename pf file_path dst w = (res, w1)"
    by (cases "safe_rename pf file_path dst w")
  have ev1: "events w1 = events w" using events_safe_rename[OF sr] .
  define ev where "ev = (case res of Inl exc \<Rightarrow> Failed file_path exc | Inr u \<Rightarrow> Renamed file_path dst)"
  define c where "c = (case res of Inl exc \<Rightarrow> changed | Inr u \<Rightarrow> changed + 1)"
  have a: "\<forall>s t. ev = Renamed s t \<longrightarrow> t = with_name s (str_int idx @ ''_'' @ name s)"
    by (cases res) (simp_all add: ev_def dst_def)
  from Cons.prems sr have "prefix_loop pf lg idx rest c (emit lg ev w1) = (n, w')"
    by (cases res) (simp_all add: dst_def Let_def ev_def c_def)
  from Cons.IH[OF this] obtain evs where
    e: "events w' = events (emit lg ev w1) @ evs"
       "\<forall>ev\<in>set evs. \<forall>src dst. ev = Renamed src dst \<longrightarrow>
           dst = with_name src (str_int idx @ ''_'' @ name src)" by blast
  have "events w' = events w @ ((if lg then [ev] else []) @ evs)"
    using e(1) ev1 by (simp add: emit_events)
  moreover have "\<forall>ev\<in>set ((if lg then [ev] else []) @ evs). \<forall>src dst. ev = Renamed src dst \<longrightarrow>
           dst = with_name src (str_int idx @ ''_'' @ name src)"
    using e(2) a by auto
  ultimately show ?case by blast
qed

lemma prefix_files_in_dir_destinations:
  assumes r: "prefix_files_in_dir pf lg d idx w = (res, w')"
  shows "\<forall>ev\<in>set (new_events w w'). \<forall>src dst. ev = Renamed src dst \<longrightarrow>
           dst = with_name src (str_int idx @ ''_'' @ name src)"
proof (cases "iterdir (fs w) d")
  case (Inl e)
  with r show ?thesis by (auto simp: prefix_files_in_dir_def new_events_def split: if_splits)
next
  case (Inr ps)
  show ?thesis
  proof (cases "py_sort (\<lambda>p. natural_key (name p)) (filter (is_file (fs w)) ps)")
    case (Inl e)
    with r Inr show ?thesis by (auto simp: prefix_files_in_dir_def new_events_def)
  next
    case entries: (Inr entries)
    obtain n w1 where l: "prefix_loop pf lg idx entries 0 w = (n, w1)"
      by (cases "prefix_loop pf lg idx entries 0 w")
    with r Inr entries have w': "w' = w1" by (auto simp: prefix_files_in_dir_def)
    from prefix_loop_destinations[OF l] obtain evs where
      e: "events w1 = events w @ evs"
         "\<forall>ev\<in>set evs. \<forall>src dst. ev = Renamed src dst \<longrightarrow>
           dst = with_name src (str_int idx @ ''_'' @ name src)" by blast
    from e(1) w' have "new_events w w' = evs" by (simp add: new_events_append)
    with e(2) show ?thesis by simp
  qed
qed

text \<open>
  C5. The new name given to a file is its name with the index and an underscore put in
  front, whatever the name is: no call of \<open>_safe_rename\<close> reported by
  \<open>_prefix_files_in_dir\<close> has another destination. On the tree of one directory with one
  file \<open>n\<close>, a run renames the file to \<open>1_n\<close> and a second run, from the state the first
  one left, renames it again, to \<open>1_1_n\<close>: the second run changes the tree again.
\<close>

theorem second_run_adds_second_prefix:
  assumes "has_key dn" and "has_key n" and "has_key (''1_'' @ n)"
    and "fs w = one_file_tree dn n c"
    and "prefix_files_in_dir pf True d idx v = (res, v')"
  shows "rename_files_in_tree pf [] False True w
           = Some (Inr 1, w\<lparr>fs := one_file_tree dn (''1_'' @ n) c,
                events := events w @ [Processing [dn] 1,
                                      Renamed [dn, n] [dn, ''1_'' @ n], Done 1]\<rparr>)
       \<and> rename_files_in_tree pf [] False True
             (w\<lparr>fs := one_file_tree dn (''1_'' @ n) c,
                events := events w @ [Processing [dn] 1,
                                      Renamed [dn, n] [dn, ''1_'' @ n], Done 1]\<rparr>)
           = Some (Inr 1, w\<lparr>fs := one_file_tree dn (''1_1_'' @ n) c,
                events := events w @ [Processing [dn] 1,
                                      Renamed [dn, n] [dn, ''1_'' @ n], Done 1,
                                      Processing [dn] 1,
                                      Renamed [dn, ''1_'' @ n] [dn, ''1_1_'' @ n], Done 1]\<rparr>)
       \<and> one_file_tree dn (''1_1_'' @ n) c \<noteq> one_file_tree dn (''1_'' @ n) c
       \<and> (\<forall>ev\<in>set (new_events v v'). \<forall>src dst. ev = Renamed src dst \<longrightarrow>
             dst = with_name src (str_int idx @ ''_'' @ name src))"
proof -
  let ?w1 = "w\<lparr>fs := one_file_tree dn (''1_'' @ n) c,
                events := events w @ [Processing [dn] 1,
                                      Renamed [dn, n] [dn, ''1_'' @ n], Done 1]\<rparr>"
  have a: "rename_files_in_tree pf [] False True w = Some (Inr 1, ?w1)"
    using one_file_run[OF assms(1,2,4)] .
  have "fs ?w1 = one_file_tree dn (''1_'' @ n) c" by simp
  from one_file_run[OF assms(1,3) this, of pf]
  have b: "rename_files_in_tree pf [] False True ?w1
           = Some (Inr 1, w\<lparr>fs := one_file_tree dn (''1_1_'' @ n) c,
                events := events w @ [Processing [dn] 1,
                                      Renamed [dn, n] [dn, ''1_'' @ n], Done 1,
                                      Processing [dn] 1,
                                      Renamed [dn, ''1_'' @ n] [dn, ''1_1_'' @ n], Done 1]\<rparr>)"
    by simp
  have c: "one_file_tree dn (''1_1_'' @ n) c \<noteq> one_file_tree dn (''1_'' @ n) c"
    using prefixed_name_differs[of n] by (simp add: one_file_tree_def)
  from a b c prefix_files_in_dir_destinations[OF assms(5)] show ?thesis by blast
qed

end
